theory Spec2Isabelle
  imports Main "HOL-Library.Multiset"
begin

section \<open>Time\<close>

text \<open>
  Go's \<^verbatim>\<open>time.Time\<close> is modelled by the instant it denotes, counted in nanoseconds
  from the zero time (January 1, year 1, 00:00:00 UTC), so that \<^verbatim>\<open>IsZero\<close> is the test
  for 0. A \<^verbatim>\<open>time.Duration\<close> is a signed number of nanoseconds. Saturation at the ends
  of the 64-bit range is not modelled: both are unbounded integers.
\<close>

type_synonym time = int
type_synonym duration = int

definition IsZero :: "time \<Rightarrow> bool" where
  "IsZero t \<longleftrightarrow> t = 0"

definition After :: "time \<Rightarrow> time \<Rightarrow> bool" where
  "After t u \<longleftrightarrow> u < t"

definition Before :: "time \<Rightarrow> time \<Rightarrow> bool" where
  "Before t u \<longleftrightarrow> t < u"

definition Add :: "time \<Rightarrow> duration \<Rightarrow> time" where
  "Add t d = t + d"

section \<open>Logging\<close>

text \<open>
  A zerolog logger is modelled by the list of entries written to it, oldest first. An
  entry keeps its level and its message; the structured fields are left out.
\<close>

datatype level = Debug | Info | Warn | Error

type_synonym logger = "(level \<times> string) list"

definition Msg :: "logger \<Rightarrow> level \<Rightarrow> string \<Rightarrow> logger" where
  "Msg l lv m = l @ [(lv, m)]"

section \<open>The expiry heap (ip\_record.go)\<close>

record BlockedIPRecord =
  IP :: string
  Reason :: string
  BlockedAt :: time
  BlockedUntil :: time

record IPExpiryItem =
  ip :: string
  expiresAt :: time
  index :: int

text \<open>
  The heap is a slice of pointers to items, and the recorder's \<open>expiryItems\<close> map holds
  the same pointers: an item is an object shared by both. A pointer is a reference into
  an explicit store of items.
\<close>

type_synonym ref = nat
type_synonym item_store = "ref \<Rightarrow> IPExpiryItem"
type_synonym IPExpiryHeap = "ref list"
type_synonym heap_state = "item_store \<times> IPExpiryHeap"

definition Len :: "heap_state \<Rightarrow> nat" where
  "Len S = length (snd S)"

definition Less :: "heap_state \<Rightarrow> nat \<Rightarrow> nat \<Rightarrow> bool" where
  "Less S i j = Before (expiresAt (fst S (snd S ! i))) (expiresAt (fst S (snd S ! j)))"

definition set_index :: "item_store \<Rightarrow> ref \<Rightarrow> int \<Rightarrow> item_store" where
  "set_index st a i = st(a := (st a)\<lparr>index := i\<rparr>)"

definition Swap :: "heap_state \<Rightarrow> nat \<Rightarrow> nat \<Rightarrow> heap_state" where
  "Swap S i j =
     (let h' = (snd S)[i := snd S ! j, j := snd S ! i];
          st1 = set_index (fst S) (h' ! i) (int i);
          st2 = set_index st1 (h' ! j) (int j)
      in (st2, h'))"

definition Push :: "heap_state \<Rightarrow> ref \<Rightarrow> heap_state" where
  "Push S x = (set_index (fst S) x (int (length (snd S))), snd S @ [x])"

text \<open>\<open>Pop\<close> reads \<open>old[n-1]\<close>: on an empty slice the read panics (\<open>None\<close>).\<close>

definition Pop :: "heap_state \<Rightarrow> (ref \<times> heap_state) option" where
  "Pop S =
     (if snd S = [] then None
      else let item = last (snd S)
           in Some (item, (set_index (fst S) item (- 1), butlast (snd S))))"

definition Peek :: "heap_state \<Rightarrow> ref option" where
  "Peek S = (if length (snd S) = 0 then None else Some (snd S ! 0))"

subsection \<open>Go's container/heap over \<open>Len\<close>, \<open>Less\<close>, \<open>Swap\<close>, \<open>Push\<close>, \<open>Pop\<close>\<close>

text \<open>
  \<open>up\<close> and \<open>down\<close> are the two loops of the package. Indices are naturals: the parent
  \<open>(j - 1) / 2\<close> of index 0 is 0 in Go (division truncates towards zero) and here
  (subtraction stops at zero). \<open>downLoop\<close> returns the final position with the heap, and
  \<open>down\<close> reports whether the element moved.
\<close>

function up :: "heap_state \<Rightarrow> nat \<Rightarrow> heap_state" where
  "up S j =
     (let i = (j - 1) div 2
      in if i = j \<or> \<not> Less S j i then S else up (Swap S i j) i)"
  by pat_completeness auto
termination
  by (relation "measure (\<lambda>(S, j). j)") auto

declare up.simps [simp del]

definition pick_child :: "heap_state \<Rightarrow> nat \<Rightarrow> nat \<Rightarrow> nat" where
  "pick_child S j1 n = (if j1 + 1 < n \<and> Less S (j1 + 1) j1 then j1 + 1 else j1)"

function downLoop :: "heap_state \<Rightarrow> nat \<Rightarrow> nat \<Rightarrow> heap_state \<times> nat" where
  "downLoop S i n =
     (let j1 = 2 * i + 1
      in if j1 \<ge> n then (S, i)
         else let j = pick_child S j1 n
              in if \<not> Less S j i then (S, i) else downLoop (Swap S i j) j n)"
  by pat_completeness auto
termination
  by (relation "measure (\<lambda>(S, i, n). n - i)") (auto simp: pick_child_def)

declare downLoop.simps [simp del]

definition down :: "heap_state \<Rightarrow> nat \<Rightarrow> nat \<Rightarrow> heap_state \<times> bool" where
  "down S i0 n = (case downLoop S i0 n of (S', i) \<Rightarrow> (S', i > i0))"

definition heap_Push :: "heap_state \<Rightarrow> ref \<Rightarrow> heap_state" where
  "heap_Push S x = (let S' = Push S x in up S' (Len S' - 1))"

text \<open>\<open>heap.Pop\<close> swaps positions 0 and \<open>Len - 1\<close>: on an empty heap the swap panics.\<close>

definition heap_Pop :: "heap_state \<Rightarrow> (ref \<times> heap_state) option" where
  "heap_Pop S =
     (if Len S = 0 then None
      else let n = Len S - 1
           in Pop (fst (down (Swap S 0 n) 0 n)))"

text \<open>
  \<open>heap.Fix\<close> takes the index as an \<open>int\<close>. At \<open>-1\<close> (an item already popped) both loops
  stop at once and nothing is read; any other index outside the slice makes \<open>up\<close> read
  out of range, a panic, except index 0 of an empty heap.
\<close>

definition heap_Fix :: "heap_state \<Rightarrow> int \<Rightarrow> heap_state option" where
  "heap_Fix S i =
     (if i = - 1 then Some S
      else if i < 0 \<or> (1 \<le> i \<and> int (Len S) \<le> i) then None
      else case down S (nat i) (Len S) of
             (S', moved) \<Rightarrow> if \<not> moved then Some (up S' (nat i)) else Some S')"

definition Update :: "heap_state \<Rightarrow> ref \<Rightarrow> time \<Rightarrow> heap_state option" where
  "Update S item t =
     (let st = (fst S)(item := (fst S item)\<lparr>expiresAt := t\<rparr>)
      in heap_Fix (st, snd S) (index (st item)))"


lemma length_Swap: "length (snd (Swap S i j)) = length (snd S)"
  by (simp add: Swap_def Let_def)

lemma Len_Swap: "Len (Swap S i j) = Len S"
  by (simp add: Len_def length_Swap)

lemma Len_downLoop: "Len (fst (downLoop S i n)) = Len S"
proof (induction S i n rule: downLoop.induct)
  case (1 S i n)
  show ?case
  proof (cases "2 * i + 1 \<ge> n \<or> \<not> Less S (pick_child S (2 * i + 1) n) i")
    case True
    then show ?thesis
      by (subst downLoop.simps) (auto simp: Let_def)
  next
    case False
    then have "downLoop S i n =
        downLoop (Swap S i (pick_child S (2 * i + 1) n)) (pick_child S (2 * i + 1) n) n"
      by (subst downLoop.simps) (simp add: Let_def)
    with False "1.IH" [OF refl _ refl] show ?thesis
      by (simp add: Len_Swap)
  qed
qed

lemma Len_down: "Len (fst (down S i n)) = Len S"
  using Len_downLoop [of S i n] by (cases "downLoop S i n") (simp add: down_def)

lemma Len_Pop: "Pop S = Some (a, S') \<Longrightarrow> Suc (Len S') = Len S"
  by (auto simp: Pop_def Len_def Let_def split: if_splits)

lemma Len_heap_Pop: "heap_Pop S = Some (a, S') \<Longrightarrow> Suc (Len S') = Len S"
  by (auto simp: heap_Pop_def Let_def Len_down Len_Swap split: if_splits dest!: Len_Pop)

section \<open>The in-memory ban registry (ip\_record.go)\<close>

record MemoryIPRecorder =
  blockedIPs :: "string \<rightharpoonup> BlockedIPRecord"
  expiryItems :: "string \<rightharpoonup> ref"
  expiryHeap :: IPExpiryHeap
  items :: item_store
  nextRef :: ref
  capacity :: int
  logger :: logger
  toDelete :: "string list"

text \<open>
  \<open>items\<close> is the memory the item pointers point into and \<open>nextRef\<close> the next unused
  address: \<open>&IPExpiryItem{...}\<close> allocates there. \<open>len(r.blockedIPs)\<close> is the number of
  keys of the map.
\<close>

definition hs :: "MemoryIPRecorder \<Rightarrow> heap_state" where
  "hs r = (items r, expiryHeap r)"

definition set_hs :: "MemoryIPRecorder \<Rightarrow> heap_state \<Rightarrow> MemoryIPRecorder" where
  "set_hs r S = r\<lparr>items := fst S, expiryHeap := snd S\<rparr>"

definition len_blockedIPs :: "MemoryIPRecorder \<Rightarrow> int" where
  "len_blockedIPs r = int (card (dom (blockedIPs r)))"

definition NewMemoryIPRecorder :: "int \<Rightarrow> logger \<Rightarrow> MemoryIPRecorder" where
  "NewMemoryIPRecorder cap lg =
     \<lparr>blockedIPs = Map.empty, expiryItems = Map.empty, expiryHeap = [],
      items = (\<lambda>_. \<lparr>ip = [], expiresAt = 0, index = 0\<rparr>), nextRef = 0,
      capacity = (if cap \<le> 0 then 10000 else cap),
      logger = Msg lg Info ''new MemoryIPRecorder instance'', toDelete = []\<rparr>"

definition delete_ip :: "MemoryIPRecorder \<Rightarrow> string \<Rightarrow> MemoryIPRecorder" where
  "delete_ip r k = r\<lparr>blockedIPs := (blockedIPs r)(k := None),
                     expiryItems := (expiryItems r)(k := None)\<rparr>"

fun delete_all :: "MemoryIPRecorder \<Rightarrow> string list \<Rightarrow> MemoryIPRecorder" where
  "delete_all r [] = r"
| "delete_all r (k # ks) = delete_all (delete_ip r k) ks"

text \<open>
  The collecting loop of \<open>cleanupExpired\<close>: while the heap is not empty, peek; stop at an
  item that expires after \<open>now\<close>; otherwise pop it and append its address to \<open>toDelete\<close>.
  \<open>None\<close> is a panic of \<open>heap.Pop\<close>.
\<close>

function cleanupLoopBody :: "heap_state \<Rightarrow> time \<Rightarrow> string list \<Rightarrow> (heap_state \<times> string list) option" where
  "cleanupLoopBody S now del =
     (if Len S > 0 then
        (case Peek S of
           None \<Rightarrow> None
         | Some item \<Rightarrow>
             if After (expiresAt (fst S item)) now then Some (S, del)
             else (case heap_Pop S of
                     None \<Rightarrow> None
                   | Some (_, S') \<Rightarrow> cleanupLoopBody S' now (del @ [ip (fst S' item)])))
      else Some (S, del))"
  by pat_completeness auto
termination
  by (relation "measure (\<lambda>(S, now, del). Len S)") (auto dest: Len_heap_Pop)

declare cleanupLoopBody.simps [simp del]

definition cleanupExpired :: "MemoryIPRecorder \<Rightarrow> time \<Rightarrow> MemoryIPRecorder option" where
  "cleanupExpired r now =
     (case cleanupLoopBody (hs r) now [] of
        None \<Rightarrow> None
      | Some (S, del) \<Rightarrow>
          let r1 = delete_all ((set_hs r S)\<lparr>toDelete := del\<rparr>) del
          in Some (if length del > 0
                   then r1\<lparr>logger := Msg (logger r1) Debug ''expired IP records cleaned''\<rparr>
                   else r1))"

text \<open>
  \<open>ensureCapacity\<close>. Besides the recorder, the model returns the removals in the order
  they happen: each popped item together with the heap as it was just before the pop.
  The first loop is the one of \<open>cleanupExpired\<close> with the extra test
  \<open>len(r.blockedIPs) >= r.capacity\<close>, which no iteration changes since the map entries are
  deleted after the loop.
\<close>

type_synonym removal = "ref \<times> heap_state"

function expiredLoop :: "heap_state \<Rightarrow> time \<Rightarrow> int \<Rightarrow> int \<Rightarrow> string list \<Rightarrow> removal list
     \<Rightarrow> (heap_state \<times> string list \<times> removal list) option" where
  "expiredLoop S now len cap del tr =
     (if Len S > 0 \<and> len \<ge> cap then
        (case Peek S of
           None \<Rightarrow> None
         | Some item \<Rightarrow>
             if After (expiresAt (fst S item)) now then Some (S, del, tr)
             else (case heap_Pop S of
                     None \<Rightarrow> None
                   | Some (_, S') \<Rightarrow>
                       expiredLoop S' now len cap (del @ [ip (fst S' item)]) (tr @ [(item, S)])))
      else Some (S, del, tr))"
  by pat_completeness auto
termination
  by (relation "measure (\<lambda>(S, now, len, cap, del, tr). Len S)") (auto dest: Len_heap_Pop)

declare expiredLoop.simps [simp del]

function evictLoop :: "MemoryIPRecorder \<Rightarrow> removal list \<Rightarrow> (MemoryIPRecorder \<times> removal list) option" where
  "evictLoop r tr =
     (if len_blockedIPs r \<ge> capacity r \<and> Len (hs r) > 0 then
        (case heap_Pop (hs r) of
           None \<Rightarrow> None
         | Some (item, S') \<Rightarrow>
             let r1 = delete_ip (set_hs r S') (ip (fst S' item));
                 r2 = r1\<lparr>logger := Msg (logger r1) Debug ''capacity reached, earliest expiring IP record removed''\<rparr>
             in evictLoop r2 (tr @ [(item, hs r)]))
      else Some (r, tr))"
  by pat_completeness auto
termination
  by (relation "measure (\<lambda>(r, tr). Len (hs r))")
     (auto simp: hs_def set_hs_def delete_ip_def Len_def dest!: Len_heap_Pop)

declare evictLoop.simps [simp del]

definition ensureCapacity :: "MemoryIPRecorder \<Rightarrow> time \<Rightarrow> (MemoryIPRecorder \<times> removal list) option" where
  "ensureCapacity r now =
     (if len_blockedIPs r < capacity r then Some (r, [])
      else case expiredLoop (hs r) now (len_blockedIPs r) (capacity r) [] [] of
             None \<Rightarrow> None
           | Some (S, del, tr) \<Rightarrow>
               evictLoop (delete_all ((set_hs r S)\<lparr>toDelete := del\<rparr>) del) tr)"

text \<open>
  \<open>RecordBlockedIP\<close>. \<open>now\<close> is the clock read at its start and \<open>now'\<close> the one read by
  \<open>ensureCapacity\<close>. The Go function returns the error \<open>nil\<close> on every path; \<open>None\<close> is a
  panic.
\<close>

definition RecordBlockedIP :: "MemoryIPRecorder \<Rightarrow> string \<Rightarrow> string \<Rightarrow> duration \<Rightarrow> time \<Rightarrow> time
     \<Rightarrow> MemoryIPRecorder option" where
  "RecordBlockedIP r k reason d now now' =
     (let expires = Add now d;
          record = \<lparr>IP = k, Reason = reason, BlockedAt = now, BlockedUntil = expires\<rparr>
      in case expiryItems r k of
           Some item \<Rightarrow>
             (case Update (hs (r\<lparr>blockedIPs := (blockedIPs r)(k \<mapsto> record)\<rparr>)) item expires of
                None \<Rightarrow> None
              | Some S \<Rightarrow>
                  let r1 = set_hs (r\<lparr>blockedIPs := (blockedIPs r)(k \<mapsto> record)\<rparr>) S
                  in Some (r1\<lparr>logger := Msg (logger r1) Info ''IP block record updated''\<rparr>))
         | None \<Rightarrow>
             (case ensureCapacity r now' of
                None \<Rightarrow> None
              | Some (r1, _) \<Rightarrow>
                  let item = nextRef r1;
                      r2 = r1\<lparr>blockedIPs := (blockedIPs r1)(k \<mapsto> record),
                             items := (items r1)(item := \<lparr>ip = k, expiresAt = expires, index = 0\<rparr>),
                             nextRef := Suc item,
                             expiryItems := (expiryItems r1)(k \<mapsto> item)\<rparr>;
                      r3 = set_hs r2 (heap_Push (hs r2) item)
                  in Some (r3\<lparr>logger := Msg (logger r3) Info ''IP blocked''\<rparr>)))"

text \<open>
  \<open>IsIPBlocked\<close> reads the map without the lock. \<open>None\<close> is the nil record pointer.
\<close>

definition IsIPBlocked :: "MemoryIPRecorder \<Rightarrow> string \<Rightarrow> time \<Rightarrow> bool \<times> BlockedIPRecord option" where
  "IsIPBlocked r k now =
     (case blockedIPs r k of
        None \<Rightarrow> (False, None)
      | Some record \<Rightarrow>
          if IsZero (BlockedUntil record) \<or> After now (BlockedUntil record) then (False, None)
          else (True, Some record))"


section \<open>Write-behind queues (ip\_record.go, log store)\<close>

text \<open>
  A buffered Go channel: the values waiting in it (oldest first), its capacity, and whether
  it has been closed. \<open>trySend\<close> is \<^verbatim>\<open>select { case ch <- v: ... default: ... }\<close>: a send
  on a closed channel panics, otherwise the value is queued when there is room, and the
  default branch is taken when there is none.
\<close>

record 'a chan =
  buf :: "'a list"
  cap :: nat
  closed :: bool

datatype 'a send_result = SendPanic | Sent "'a chan" | SendDefault

definition trySend :: "'a chan \<Rightarrow> 'a \<Rightarrow> 'a send_result" where
  "trySend c v =
     (if closed c then SendPanic
      else if length (buf c) < cap c then Sent (c\<lparr>buf := buf c @ [v]\<rparr>)
      else SendDefault)"

definition make_chan :: "nat \<Rightarrow> 'a chan" where
  "make_chan n = \<lparr>buf = [], cap = n, closed = False\<rparr>"

record MongoIPRecorder =
  memory :: MemoryIPRecorder
  writeQueue :: "BlockedIPRecord chan"
  logger_ip :: logger

definition NewMongoIPRecorder :: "int \<Rightarrow> logger \<Rightarrow> MongoIPRecorder" where
  "NewMongoIPRecorder n lg =
     \<lparr>memory = NewMemoryIPRecorder n lg, writeQueue = make_chan 1000,
      logger_ip = Msg lg Info ''new MongoIPRecorder instance''\<rparr>"

text \<open>
  \<open>MongoIPRecorder.RecordBlockedIP\<close>: the in-memory recorder first, then the non-blocking
  push. \<open>now\<close> and \<open>now'\<close> are the clock readings of the in-memory recorder, \<open>now2\<close> the one
  taken for the queued record. The result is the returned error (\<open>None\<close> is \<open>nil\<close>) with the
  new state; the outer \<open>None\<close> is a panic.
\<close>

definition Mongo_RecordBlockedIP :: "MongoIPRecorder \<Rightarrow> string \<Rightarrow> string \<Rightarrow> duration \<Rightarrow> time \<Rightarrow> time
     \<Rightarrow> time \<Rightarrow> (string option \<times> MongoIPRecorder) option" where
  "Mongo_RecordBlockedIP r k reason d now now' now2 =
     (case RecordBlockedIP (memory r) k reason d now now' of
        None \<Rightarrow> None
      | Some m \<Rightarrow>
          let record = \<lparr>IP = k, Reason = reason, BlockedAt = now2, BlockedUntil = Add now2 d\<rparr>
          in case trySend (writeQueue r) record of
               SendPanic \<Rightarrow> None
             | Sent q \<Rightarrow> Some (None, r\<lparr>memory := m, writeQueue := q\<rparr>)
             | SendDefault \<Rightarrow>
                 Some (None, r\<lparr>memory := m,
                                logger_ip := Msg (logger_ip r) Warn ''MongoDB write queue full, record dropped''\<rparr>))"

definition Mongo_IsIPBlocked :: "MongoIPRecorder \<Rightarrow> string \<Rightarrow> time \<Rightarrow> bool \<times> BlockedIPRecord option" where
  "Mongo_IsIPBlocked r k now = IsIPBlocked (memory r) k now"

record 'l MongoLogStore =
  logChan :: "'l chan"
  logger_ls :: logger
  processStarted :: bool

definition defaultChannelSize :: nat where
  "defaultChannelSize = 1000"

definition NewMongoLogStore :: "logger \<Rightarrow> 'l MongoLogStore" where
  "NewMongoLogStore lg =
     \<lparr>logChan = make_chan defaultChannelSize,
      logger_ls = Msg lg Info ''new MongoLogStore instance'', processStarted = False\<rparr>"

definition Store :: "'l MongoLogStore \<Rightarrow> 'l \<Rightarrow> (string option \<times> 'l MongoLogStore) option" where
  "Store s lg =
     (case trySend (logChan s) lg of
        SendPanic \<Rightarrow> None
      | Sent q \<Rightarrow> Some (None, s\<lparr>logChan := q\<rparr>)
      | SendDefault \<Rightarrow>
          Some (None, s\<lparr>logger_ls := Msg (logger_ls s) Warn ''log channel is full, dropping log entry''\<rparr>))"

section \<open>Byte strings and the Go library functions the header code calls\<close>

text \<open>
  A Go string or byte slice is a list of 8-bit characters. The library functions are
  modelled on ASCII: \<open>TrimSpace\<close> removes the six ASCII white space bytes and \<open>EqualFold\<close>
  folds the letters A to Z. (On bytes above 127 Go also decodes UTF-8, trims the other
  Unicode white space and folds two non-ASCII letters; those inputs are outside the model.)
\<close>

definition isSpace :: "char \<Rightarrow> bool" where
  "isSpace c \<longleftrightarrow> c \<in> {CHR 0x09, CHR 0x0A, CHR 0x0B, CHR 0x0C, CHR 0x0D, CHR 0x20}"

definition TrimSpace :: "string \<Rightarrow> string" where
  "TrimSpace s = rev (dropWhile isSpace (rev (dropWhile isSpace s)))"

definition Trim :: "string \<Rightarrow> char \<Rightarrow> string" where
  "Trim s c = rev (dropWhile (\<lambda>x. x = c) (rev (dropWhile (\<lambda>x. x = c) s)))"

definition toLowerASCII :: "char \<Rightarrow> char" where
  "toLowerASCII c =
     (case map_of (zip ''ABCDEFGHIJKLMNOPQRSTUVWXYZ'' ''abcdefghijklmnopqrstuvwxyz'') c of
        Some l \<Rightarrow> l
      | None \<Rightarrow> c)"

definition EqualFold :: "string \<Rightarrow> string \<Rightarrow> bool" where
  "EqualFold s t \<longleftrightarrow> map toLowerASCII s = map toLowerASCII t"

definition HasPrefix :: "string \<Rightarrow> string \<Rightarrow> bool" where
  "HasPrefix s p \<longleftrightarrow> take (length p) s = p"

definition HasSuffix :: "string \<Rightarrow> string \<Rightarrow> bool" where
  "HasSuffix s p \<longleftrightarrow> length p \<le> length s \<and> drop (length s - length p) s = p"

text \<open>
  \<open>Split\<close> is \<open>strings.Split\<close> for a one-byte separator: the pieces between the
  separators, at least one piece. \<open>SplitN2\<close> is \<open>SplitN(s, sep, 2)\<close>: \<open>None\<close> when the
  result has one element (no separator in \<open>s\<close>), otherwise the text before the first
  separator and the text after it.
\<close>

fun Split :: "char \<Rightarrow> string \<Rightarrow> string list" where
  "Split sep [] = [[]]"
| "Split sep (c # cs) =
     (if c = sep then [] # Split sep cs
      else case Split sep cs of
             [] \<Rightarrow> [[c]]
           | p # ps \<Rightarrow> (c # p) # ps)"

fun SplitN2 :: "char \<Rightarrow> string \<Rightarrow> (string \<times> string) option" where
  "SplitN2 sep [] = None"
| "SplitN2 sep (c # cs) =
     (if c = sep then Some ([], cs)
      else case SplitN2 sep cs of
             None \<Rightarrow> None
           | Some (a, b) \<Rightarrow> Some (c # a, b))"

text \<open>
  \<open>bufio.Scanner\<close> with its default split function \<open>ScanLines\<close>: the lines between
  newlines, each without one trailing carriage return; a last line without newline is a
  line when it is not empty. The scanner stops (and \<open>Scan\<close> returns false) at a line that
  does not fit its buffer of \<open>MaxScanTokenSize\<close> bytes. \<open>scan cur rest\<close> has read \<open>cur\<close>
  of the current line.
\<close>

definition MaxScanTokenSize :: nat where
  "MaxScanTokenSize = 65536"

definition dropCR :: "string \<Rightarrow> string" where
  "dropCR s = (if s \<noteq> [] \<and> last s = CHR 0x0D then butlast s else s)"

fun scan :: "string \<Rightarrow> string \<Rightarrow> string list" where
  "scan cur [] = (if cur = [] \<or> MaxScanTokenSize \<le> length cur then [] else [dropCR cur])"
| "scan cur (c # cs) =
     (if c = CHR 0x0A
      then (if MaxScanTokenSize \<le> length cur then [] else dropCR cur # scan [] cs)
      else scan (cur @ [c]) cs)"

definition ScanLines :: "string \<Rightarrow> string list" where
  "ScanLines data = scan [] data"

section \<open>Header lookup and the client address (application.go)\<close>

text \<open>
  \<open>getHeaderValue\<close> returns the value of the first header line whose key equals the
  target up to case, or the empty string. Its error result is \<open>nil\<close> on every path and is
  left out.
\<close>

fun headerLoop :: "string list \<Rightarrow> string \<Rightarrow> string" where
  "headerLoop [] targetHeader = []"
| "headerLoop (l # ls) targetHeader =
     (let line = TrimSpace l
      in if length line = 0 then headerLoop ls targetHeader
         else case SplitN2 (CHR '':'') line of
                None \<Rightarrow> headerLoop ls targetHeader
              | Some (k, v) \<Rightarrow>
                  if EqualFold (TrimSpace k) targetHeader then TrimSpace v
                  else headerLoop ls targetHeader)"

definition getHeaderValue :: "string \<Rightarrow> string \<Rightarrow> string" where
  "getHeaderValue headers targetHeader = headerLoop (ScanLines headers) targetHeader"

text \<open>
  \<open>netip.Addr\<close>: \<open>None\<close> is the zero address (\<open>IsValid\<close> is false), \<open>Some s\<close> a valid
  address whose \<open>String()\<close> is \<open>s\<close>. A byte slice that the code tests against \<open>nil\<close> is
  an option.
\<close>

record applicationRequest =
  SrcIp :: "string option"
  SrcPort :: int
  DstIp :: "string option"
  DstPort :: int
  Method :: string
  ID :: string
  Path :: string
  Query :: "string option"
  Version :: string
  Headers :: string
  Body :: string

definition clientIPHeaders :: "string list" where
  "clientIPHeaders =
     [''x-forwarded-for'', ''x-real-ip'', ''true-client-ip'', ''cf-connecting-ip'',
      ''fastly-client-ip'', ''x-client-ip'', ''x-original-forwarded-for'', ''forwarded'',
      ''x-cluster-client-ip'']"

definition stripBrackets :: "string \<Rightarrow> string" where
  "stripBrackets a = (if HasPrefix a ''['' \<and> HasSuffix a '']'' then butlast (tl a) else a)"

text \<open>The loop over the parts of a \<open>Forwarded\<close> value; \<open>None\<close> when no part returns.\<close>

fun forwardedLoop :: "string list \<Rightarrow> string option" where
  "forwardedLoop [] = None"
| "forwardedLoop (part # parts) =
     (case SplitN2 (CHR ''='') part of
        None \<Rightarrow> forwardedLoop parts
      | Some (k, v) \<Rightarrow>
          if TrimSpace k = ''for''
          then (let a = stripBrackets (Trim (TrimSpace v) (CHR 0x22))
                in if a \<noteq> [] then Some a else forwardedLoop parts)
          else forwardedLoop parts)"

text \<open>The loop over the header names; \<open>None\<close> when no header gives an address.\<close>

fun clientIPLoop :: "string \<Rightarrow> string list \<Rightarrow> string option" where
  "clientIPLoop hdrs [] = None"
| "clientIPLoop hdrs (header # rest) =
     (let v = getHeaderValue hdrs header
      in if v \<noteq> [] then
           (if header = ''x-forwarded-for'' \<or> header = ''x-original-forwarded-for'' then
              (case Split (CHR '','') v of
                 [] \<Rightarrow> clientIPLoop hdrs rest
               | first # _ \<Rightarrow>
                   (let a = TrimSpace first
                    in if a \<noteq> [] then Some a else clientIPLoop hdrs rest))
            else if header = ''forwarded'' then
              (case forwardedLoop (Split (CHR '';'') v) of
                 Some a \<Rightarrow> Some a
               | None \<Rightarrow> clientIPLoop hdrs rest)
            else (let a = TrimSpace v
                  in if a \<noteq> [] then Some a else clientIPLoop hdrs rest))
         else clientIPLoop hdrs rest)"

definition getRealClientIP :: "applicationRequest option \<Rightarrow> string" where
  "getRealClientIP r =
     (case r of
        None \<Rightarrow> []
      | Some req \<Rightarrow>
          (case clientIPLoop (Headers req) clientIPHeaders of
             Some a \<Rightarrow> a
           | None \<Rightarrow> (case SrcIp req of Some s \<Rightarrow> s | None \<Rightarrow> [])))"

section \<open>The collaborators of the handlers (application.go)\<close>

record Interruption =
  RuleID :: int
  Action :: string
  Status :: int
  Data :: string

text \<open>A Go \<open>error\<close>: an \<open>ErrInterrupted\<close> carrying the interruption, or a formatted message.\<close>

datatype error = ErrInterrupted Interruption | Errorf string

text \<open>
  A decoded message is the list of its key-value entries in order. An entry is named by
  its key, which fixes the type of its value; \<open>KV_other\<close> is an entry under any other key.
  The query value is an option: the handler tests the byte slice against \<open>nil\<close>.
\<close>

datatype kv =
    KV_src_ip "string option"
  | KV_src_port int
  | KV_dst_ip "string option"
  | KV_dst_port int
  | KV_method string
  | KV_path string
  | KV_query "string option"
  | KV_version string
  | KV_headers string
  | KV_body string
  | KV_id string
  | KV_status int
  | KV_other string

record Rule =
  RuleName :: string
  RuleIDString :: string

record MatchedRule =
  MatchedID :: int
  MatchedData :: string
  MatchedMessage :: string

text \<open>
  The security log entry. Of the fields of \<open>model.WAFLog\<close> the model keeps the request
  text, the addresses, the request id, the collected entries (message, payload, rule id)
  and the summary fields taken from the matched rules; times, geolocation and the other
  rule attributes are left out.
\<close>

record WAFLog =
  LogRequest :: string
  LogDomain :: string
  LogSrcIP :: string
  LogDstIP :: string
  LogSrcPort :: int
  LogDstPort :: int
  LogRequestID :: string
  LogEntries :: "(string \<times> string \<times> int) list"
  LogPayload :: string
  LogMessage :: string
  LogRuleID :: int

text \<open>
  The matching engine, the flow controller, the rule engine and the action writer are
  outside this code. The handlers' calls to them are recorded in order, and what a call
  answers is given by the environment as a function of the calls made so far, the call
  itself included. A matching-engine transaction is named by a handle.
\<close>

type_synonym txh = nat

datatype call =
    CheckVisit string
  | RecordAttack string
  | RecordError string
  | MatchRequest string string string
  | NewTransactionWithID txh string
  | SetString string string
  | IsRuleEngineOff txh
  | ProcessConnection txh string int string int
  | ProcessURI txh string string string
  | AddRequestHeader txh string string
  | ProcessRequestHeaders txh
  | WriteRequestBody txh string
  | ProcessRequestBody txh
  | AddResponseHeader txh string string
  | ProcessResponseHeaders txh int string
  | WriteResponseBody txh string
  | ProcessResponseBody txh
  | ProcessLogging txh
  | Close txh

record env =
  clock :: time
  random :: "nat \<Rightarrow> nat"
  FormatRFC3339 :: "time \<Rightarrow> string"
  on_CheckVisit :: "call list \<Rightarrow> bool \<times> string option"
  on_MatchRequest :: "call list \<Rightarrow> bool \<times> Rule option \<times> string option"
  on_SetString :: "call list \<Rightarrow> string option"
  on_IsRuleEngineOff :: "call list \<Rightarrow> bool"
  on_ProcessHeaders :: "call list \<Rightarrow> Interruption option"
  on_WriteBody :: "call list \<Rightarrow> Interruption option \<times> string option"
  on_ProcessBody :: "call list \<Rightarrow> Interruption option \<times> string option"
  on_IsInterrupted :: "call list \<Rightarrow> txh \<Rightarrow> bool"
  on_Interruption :: "call list \<Rightarrow> txh \<Rightarrow> Interruption"
  on_MatchedRules :: "call list \<Rightarrow> txh \<Rightarrow> MatchedRule list"
  on_Close :: "call list \<Rightarrow> string option"

section \<open>The application state\<close>

text \<open>
  A cached \<open>transaction\<close> is an object reached through a pointer: the cache, the response
  handler and the eviction callback share it, and with it its mutex \<open>m\<close> (true when
  locked). \<open>txs\<close> is the memory these pointers point into. The expiring cache is the map
  from transaction id to pointer; when an entry expires is decided by the cache's
  evicter, outside the handlers. The collaborators that may be \<open>nil\<close> are options, or a
  flag when their state is outside the model.
\<close>

type_synonym tref = nat

record transaction =
  tx :: txh
  m :: bool
  request :: "applicationRequest option"

record Application =
  ResponseCheck :: bool
  TransactionTTL :: duration
  ipRecorder :: "MongoIPRecorder option"
  flowController :: bool
  ruleEngine :: bool
  logStore :: "WAFLog MongoLogStore option"
  cache :: "string \<rightharpoonup> tref"
  txs :: "tref \<Rightarrow> transaction"
  nextTref :: tref
  nextTx :: txh
  Logger :: logger
  calls :: "call list"

definition call :: "Application \<Rightarrow> call \<Rightarrow> Application" where
  "call a c = a\<lparr>calls := calls a @ [c]\<rparr>"

definition logMsg :: "Application \<Rightarrow> level \<Rightarrow> string \<Rightarrow> Application" where
  "logMsg a lv s = a\<lparr>Logger := Msg (Logger a) lv s\<rparr>"

text \<open>\<open>sync.Mutex.TryLock\<close>: whether the lock was acquired, and the mutex afterwards.\<close>

definition TryLock :: "bool \<Rightarrow> bool \<times> bool" where
  "TryLock locked = (\<not> locked, True)"

definition AddrString :: "string option \<Rightarrow> string" where
  "AddrString a = (case a of None \<Rightarrow> ''invalid IP'' | Some s \<Rightarrow> s)"

section \<open>Parsing the messages\<close>

definition zeroRequest :: applicationRequest where
  "zeroRequest =
     \<lparr>SrcIp = None, SrcPort = 0, DstIp = None, DstPort = 0, Method = [], ID = [], Path = [],
      Query = None, Version = [], Headers = [], Body = []\<rparr>"

fun parseRequest :: "kv list \<Rightarrow> applicationRequest \<Rightarrow> logger \<Rightarrow> applicationRequest \<times> logger" where
  "parseRequest [] req lg = (req, lg)"
| "parseRequest (KV_src_ip v # kvs) req lg = parseRequest kvs (req\<lparr>SrcIp := v\<rparr>) lg"
| "parseRequest (KV_src_port v # kvs) req lg = parseRequest kvs (req\<lparr>SrcPort := v\<rparr>) lg"
| "parseRequest (KV_dst_ip v # kvs) req lg = parseRequest kvs (req\<lparr>DstIp := v\<rparr>) lg"
| "parseRequest (KV_dst_port v # kvs) req lg = parseRequest kvs (req\<lparr>DstPort := v\<rparr>) lg"
| "parseRequest (KV_method v # kvs) req lg = parseRequest kvs (req\<lparr>Method := v\<rparr>) lg"
| "parseRequest (KV_path v # kvs) req lg = parseRequest kvs (req\<lparr>Path := v\<rparr>) lg"
| "parseRequest (KV_query v # kvs) req lg = parseRequest kvs (req\<lparr>Query := v\<rparr>) lg"
| "parseRequest (KV_version v # kvs) req lg = parseRequest kvs (req\<lparr>Version := v\<rparr>) lg"
| "parseRequest (KV_headers v # kvs) req lg = parseRequest kvs (req\<lparr>Headers := v\<rparr>) lg"
| "parseRequest (KV_body v # kvs) req lg = parseRequest kvs (req\<lparr>Body := v\<rparr>) lg"
| "parseRequest (KV_id v # kvs) req lg = parseRequest kvs (req\<lparr>ID := v\<rparr>) lg"
| "parseRequest (_ # kvs) req lg = parseRequest kvs req (Msg lg Debug ''unknown kv entry'')"

definition idLength :: nat where
  "idLength = 16"

definition generateID :: "(nat \<Rightarrow> nat) \<Rightarrow> string" where
  "generateID rnd = map (\<lambda>i. char_of (65 + rnd i mod 26)) [0..<idLength]"

record applicationResponse =
  ResID :: string
  ResVersion :: string
  ResStatus :: int
  ResHeaders :: string
  ResBody :: string

definition zeroResponse :: applicationResponse where
  "zeroResponse = \<lparr>ResID = [], ResVersion = [], ResStatus = 0, ResHeaders = [], ResBody = []\<rparr>"

fun parseResponse :: "kv list \<Rightarrow> applicationResponse \<Rightarrow> logger \<Rightarrow> applicationResponse \<times> logger" where
  "parseResponse [] res lg = (res, lg)"
| "parseResponse (KV_id v # kvs) res lg = parseResponse kvs (res\<lparr>ResID := v\<rparr>) lg"
| "parseResponse (KV_version v # kvs) res lg = parseResponse kvs (res\<lparr>ResVersion := v\<rparr>) lg"
| "parseResponse (KV_status v # kvs) res lg = parseResponse kvs (res\<lparr>ResStatus := v\<rparr>) lg"
| "parseResponse (KV_headers v # kvs) res lg = parseResponse kvs (res\<lparr>ResHeaders := v\<rparr>) lg"
| "parseResponse (KV_body v # kvs) res lg = parseResponse kvs (res\<lparr>ResBody := v\<rparr>) lg"
| "parseResponse (_ # kvs) res lg = parseResponse kvs res (Msg lg Debug ''unknown kv entry'')"

text \<open>
  \<open>readHeaders\<close> calls back for each well-formed line and stops with an error at the first
  line without a colon: the result is the callbacks made, in order, and the error if any.
\<close>

fun readHeadersLoop :: "string list \<Rightarrow> (string \<times> string) list \<times> string option" where
  "readHeadersLoop [] = ([], None)"
| "readHeadersLoop (l # ls) =
     (let line = TrimSpace l
      in if length line = 0 then readHeadersLoop ls
         else case SplitN2 (CHR '':'') line of
                None \<Rightarrow> ([], Some (''invalid header: '' @ l))
              | Some (k, v) \<Rightarrow>
                  (case readHeadersLoop ls of
                     (rest, er) \<Rightarrow> ((TrimSpace k, TrimSpace v) # rest, er)))"

definition readHeaders :: "string \<Rightarrow> (string \<times> string) list \<times> string option" where
  "readHeaders headers = readHeadersLoop (ScanLines headers)"

section \<open>Writing security log entries\<close>

definition buildRequestString :: "applicationRequest \<Rightarrow> string \<Rightarrow> string" where
  "buildRequestString req headers =
     Method req @ '' '' @ Path req @
     (case Query req of None \<Rightarrow> [] | Some q \<Rightarrow> ''?'' @ q) @
     '' HTTP/'' @ Version req @ [CHR 0x0A] @ headers @
     (if length (Body req) > 0 then [CHR 0x0A] @ Body req else [])"

definition beforeColon :: "string \<Rightarrow> string" where
  "beforeColon s = takeWhile (\<lambda>c. c \<noteq> CHR '':'') s"

definition getHostFromRequest :: "applicationRequest \<Rightarrow> string" where
  "getHostFromRequest req =
     (let host = getHeaderValue (Headers req) ''host''
      in if host \<noteq> [] then beforeColon host else beforeColon (AddrString (DstIp req)))"

text \<open>
  Both save functions end in \<open>a.logStore.Store(firewallLog)\<close> without testing the store
  against \<open>nil\<close>: with no store the call panics (\<open>None\<close>), as does a send on a closed
  channel.
\<close>

definition storeLog :: "Application \<Rightarrow> WAFLog \<Rightarrow> (string option \<times> Application) option" where
  "storeLog a w =
     (case logStore a of
        None \<Rightarrow> None
      | Some s \<Rightarrow>
          (case Store s w of
             None \<Rightarrow> None
           | Some (er, s') \<Rightarrow> Some (er, a\<lparr>logStore := Some s'\<rparr>)))"

definition saveMicroEngineLog :: "Application \<Rightarrow> Rule option \<Rightarrow> applicationRequest \<Rightarrow> string
     \<Rightarrow> (string option \<times> Application) option" where
  "saveMicroEngineLog a rule req headers =
     (let realIP = getRealClientIP (Some req);
          ruleName = (case rule of None \<Rightarrow> ''whitelist block'' | Some r \<Rightarrow> RuleName r);
          ruleID = (case rule of None \<Rightarrow> ''none'' | Some r \<Rightarrow> RuleIDString r);
          logMessage = ''request blocked by micro engine, ruleId: '' @ ruleID @ '', ruleName: '' @ ruleName
      in storeLog a
           \<lparr>LogRequest = buildRequestString req headers, LogDomain = getHostFromRequest req,
            LogSrcIP = realIP, LogDstIP = AddrString (DstIp req), LogSrcPort = SrcPort req,
            LogDstPort = DstPort req, LogRequestID = ID req,
            LogEntries = [(logMessage, [], 0)], LogPayload = logMessage, LogMessage = [],
            LogRuleID = 0\<rparr>)"

fun matchedLoop :: "MatchedRule list \<Rightarrow> Interruption \<Rightarrow> WAFLog \<Rightarrow> WAFLog" where
  "matchedLoop [] it w = w"
| "matchedLoop (r # rs) it w =
     (if MatchedID r = RuleID it \<or> length (MatchedData r) > 0 then
        matchedLoop rs it
          (w\<lparr>LogEntries := LogEntries w @ [(MatchedMessage r, MatchedData r, MatchedID r)],
             LogRuleID := (if MatchedID r \<noteq> 0 then MatchedID r else LogRuleID w),
             LogPayload := (if MatchedData r \<noteq> [] then MatchedData r else LogPayload w),
             LogMessage := (if MatchedMessage r \<noteq> [] then MatchedMessage r else LogMessage w)\<rparr>)
      else matchedLoop rs it w)"

definition saveFirewallLog :: "Application \<Rightarrow> MatchedRule list \<Rightarrow> Interruption \<Rightarrow> applicationRequest
     \<Rightarrow> string \<Rightarrow> (string option \<times> Application) option" where
  "saveFirewallLog a matchedRules it req headers =
     storeLog a
       (matchedLoop matchedRules it
          \<lparr>LogRequest = buildRequestString req headers, LogDomain = getHostFromRequest req,
           LogSrcIP = getRealClientIP (Some req), LogDstIP = AddrString (DstIp req),
           LogSrcPort = SrcPort req, LogDstPort = DstPort req, LogRequestID = ID req,
           LogEntries = [], LogPayload = [], LogMessage = [], LogRuleID = 0\<rparr>)"

section \<open>The request handler (application.go)\<close>

text \<open>
  Every handler returns the Go error (\<open>None\<close> is \<open>nil\<close>) with the new application state;
  the outer \<open>None\<close> is a panic.
\<close>

type_synonym result = "(error option \<times> Application) option"

definition deny :: "int \<Rightarrow> string \<Rightarrow> error" where
  "deny status text = ErrInterrupted \<lparr>RuleID = 0, Action = ''deny'', Status = status, Data = text\<rparr>"

text \<open>
  The tail shared by the deferred function of \<open>HandleRequest\<close>, the deferred function of
  \<open>HandleResponse\<close> and (its last two calls) the eviction callback: if the transaction is
  interrupted and a log store is configured, record the attack and save a log entry for
  the matched rules; then the engine's logging hook and \<open>Close\<close>. The response handler
  also wants the stored request not to be \<open>nil\<close> before it saves.
\<close>

definition logAndClose :: "env \<Rightarrow> Application \<Rightarrow> txh \<Rightarrow> Application" where
  "logAndClose e a h =
     (let a1 = call (call a (ProcessLogging h)) (Close h)
      in case on_Close e (calls a1) of
           None \<Rightarrow> a1
         | Some _ \<Rightarrow> logMsg a1 Error ''failed to close transaction'')"

definition finalize :: "env \<Rightarrow> Application \<Rightarrow> txh \<Rightarrow> applicationRequest option \<Rightarrow> string
     \<Rightarrow> Application option" where
  "finalize e a h req realIP =
     (if on_IsInterrupted e (calls a) h \<and> logStore a \<noteq> None then
        (let a1 = (if flowController a then call a (RecordAttack realIP) else a);
             interruption = on_Interruption e (calls a1) h;
             matchedRules = on_MatchedRules e (calls a1) h
         in case req of
              Some r \<Rightarrow>
                if length matchedRules > 0 then
                  (case saveFirewallLog a1 matchedRules interruption r (Headers r) of
                     None \<Rightarrow> None
                   | Some (None, a2) \<Rightarrow> Some (logAndClose e a2 h)
                   | Some (Some _, a2) \<Rightarrow>
                       Some (logAndClose e (logMsg a2 Error ''failed to save firewall log'') h))
                else Some (logAndClose e a1 h)
            | None \<Rightarrow> Some (logAndClose e a1 h))
      else Some (logAndClose e a h))"

text \<open>
  The three gates in front of the matching engine. \<open>Inl\<close> is the denial that a gate
  returns, tagged with the gate; \<open>Inr\<close> is the state with which the handler goes on.
\<close>

datatype gate = BanRegistry | FlowControl | MicroEngine

definition banGate :: "env \<Rightarrow> Application \<Rightarrow> string \<Rightarrow> (error \<times> Application + Application) option" where
  "banGate e a realIP =
     (case ipRecorder a of
        None \<Rightarrow> Some (Inr a)
      | Some rec \<Rightarrow>
          (case Mongo_IsIPBlocked rec realIP (clock e) of
             (False, _) \<Rightarrow> Some (Inr a)
           | (True, None) \<Rightarrow> None
           | (True, Some record) \<Rightarrow>
               Some (Inl (deny 403 (''IP has been blocked until '' @ FormatRFC3339 e (BlockedUntil record)
                                     @ '' due to '' @ Reason record),
                          logMsg a Info ''request denied: IP is blocked''))))"

definition flowGate :: "env \<Rightarrow> Application \<Rightarrow> string \<Rightarrow> error \<times> Application + Application" where
  "flowGate e a realIP =
     (if flowController a then
        (let a1 = call a (CheckVisit realIP)
         in case on_CheckVisit e (calls a1) of
              (_, Some _) \<Rightarrow> Inr (logMsg a1 Error ''flow control check failed'')
            | (allowed, None) \<Rightarrow>
                if \<not> allowed then Inl (deny 429 ''Too many requests'', a1) else Inr a1)
      else Inr a)"

definition microGate :: "env \<Rightarrow> Application \<Rightarrow> applicationRequest
     \<Rightarrow> (error \<times> Application + Application) option" where
  "microGate e a req =
     (if ruleEngine a then
        (let realIP = getRealClientIP (Some req);
             path = Path req;
             url = (case Query req of
                      None \<Rightarrow> path
                    | Some q \<Rightarrow> if length q > 0 then path @ ''?'' @ q else path);
             a1 = call a (MatchRequest realIP url path)
         in case on_MatchRequest e (calls a1) of
              (shouldBlock, rule, err) \<Rightarrow>
                (let a2 = (if err \<noteq> None then logMsg a1 Error ''failed to match request'' else a1)
                 in if shouldBlock \<and> err = None then
                      (let a3 = (if flowController a2 then call a2 (RecordAttack realIP) else a2);
                           a4 = logMsg a3 Info ''request blocked by micro engine''
                       in case saveMicroEngineLog a4 rule req (Headers req) of
                            None \<Rightarrow> None
                          | Some (None, a5) \<Rightarrow> Some (Inl (deny 403 [], a5))
                          | Some (Some _, a5) \<Rightarrow>
                              Some (Inl (deny 403 [], logMsg a5 Error ''failed to save micro engine log'')))
                    else Some (Inr a2)))
      else Some (Inr a))"

definition gates :: "env \<Rightarrow> Application \<Rightarrow> applicationRequest \<Rightarrow> string
     \<Rightarrow> (gate \<times> error \<times> Application + Application) option" where
  "gates e a req realIP =
     (case banGate e a realIP of
        None \<Rightarrow> None
      | Some (Inl (er, a1)) \<Rightarrow> Some (Inl (BanRegistry, er, a1))
      | Some (Inr a1) \<Rightarrow>
          (case flowGate e a1 realIP of
             Inl (er, a2) \<Rightarrow> Some (Inl (FlowControl, er, a2))
           | Inr a2 \<Rightarrow>
               (case microGate e a2 req of
                  None \<Rightarrow> None
                | Some (Inl (er, a3)) \<Rightarrow> Some (Inl (MicroEngine, er, a3))
                | Some (Inr a3) \<Rightarrow> Some (Inr a3))))"

text \<open>
  The body of the handler from \<open>writer.SetString\<close> to its last \<open>return\<close>, for the opened
  transaction \<open>h\<close>.
\<close>

definition requestURL :: "applicationRequest \<Rightarrow> string" where
  "requestURL req = Path req @ (case Query req of None \<Rightarrow> [] | Some q \<Rightarrow> ''?'' @ q)"

definition interruptedBy :: "Interruption option \<times> string option \<Rightarrow> error option" where
  "interruptedBy r =
     (case r of
        (_, Some er) \<Rightarrow> Some (Errorf er)
      | (Some it, None) \<Rightarrow> Some (ErrInterrupted it)
      | (None, None) \<Rightarrow> None)"

definition requestBody :: "env \<Rightarrow> Application \<Rightarrow> txh \<Rightarrow> applicationRequest \<Rightarrow> error option \<times> Application" where
  "requestBody e a h req =
     (let a1 = call a (WriteRequestBody h (Body req))
      in case interruptedBy (on_WriteBody e (calls a1)) of
           Some er \<Rightarrow> (Some er, a1)
         | None \<Rightarrow>
             (let a2 = call a1 (ProcessRequestBody h)
              in (interruptedBy (on_ProcessBody e (calls a2)), a2)))"

definition requestPhases :: "env \<Rightarrow> Application \<Rightarrow> txh \<Rightarrow> applicationRequest \<Rightarrow> error option \<times> Application" where
  "requestPhases e a h req =
     (let a1 = call a (SetString ''id'' (ID req))
      in case on_SetString e (calls a1) of
           Some er \<Rightarrow> (Some (Errorf er), a1)
         | None \<Rightarrow>
             (let a2 = call a1 (IsRuleEngineOff h)
              in if on_IsRuleEngineOff e (calls a2)
                 then (None, logMsg a2 Warn ''Rule engine is Off, Coraza is not going to process any rule'')
                 else
                   (let a3 = call a2 (ProcessConnection h (AddrString (SrcIp req)) (SrcPort req)
                                        (AddrString (DstIp req)) (DstPort req));
                        a4 = call a3 (ProcessURI h (requestURL req) (Method req) (''HTTP/'' @ Version req))
                    in case readHeaders (Headers req) of
                         (hdrs, er) \<Rightarrow>
                           (let a5 = foldl (\<lambda>s (k, v). call s (AddRequestHeader h k v)) a4 hdrs
                            in case er of
                                 Some msg \<Rightarrow> (Some (Errorf (''reading headers: '' @ msg)), a5)
                               | None \<Rightarrow>
                                   (let a6 = call a5 (ProcessRequestHeaders h)
                                    in case on_ProcessHeaders e (calls a6) of
                                         Some it \<Rightarrow> (Some (ErrInterrupted it), a6)
                                       | None \<Rightarrow> requestBody e a6 h req)))))"

text \<open>
  The deferred function: cache the transaction when the handler succeeded and response
  checking is on, finalize it otherwise.
\<close>

definition afterRequest :: "env \<Rightarrow> Application \<Rightarrow> txh \<Rightarrow> applicationRequest \<Rightarrow> string
     \<Rightarrow> error option \<Rightarrow> result" where
  "afterRequest e a h req realIP err =
     (if err = None \<and> ResponseCheck a then
        (let t = nextTref a
         in Some (err, a\<lparr>txs := (txs a)(t := \<lparr>tx = h, m = False, request = Some req\<rparr>),
                        nextTref := Suc t,
                        cache := (cache a)(ID req \<mapsto> t)\<rparr>))
      else case finalize e a h (Some req) realIP of
             None \<Rightarrow> None
           | Some a1 \<Rightarrow> Some (err, a1))"

definition openAndProcess :: "env \<Rightarrow> Application \<Rightarrow> applicationRequest \<Rightarrow> string \<Rightarrow> result" where
  "openAndProcess e a req realIP =
     (let h = nextTx a;
          a1 = call (a\<lparr>nextTx := Suc h\<rparr>) (NewTransactionWithID h (ID req))
      in case requestPhases e a1 h req of
           (err, a2) \<Rightarrow> afterRequest e a2 h req realIP err)"

definition decodeRequest :: "env \<Rightarrow> Application \<Rightarrow> kv list \<Rightarrow> applicationRequest \<times> Application" where
  "decodeRequest e a message =
     (case parseRequest message zeroRequest (Logger a) of
        (req, lg) \<Rightarrow>
          ((if length (ID req) = 0 then req\<lparr>ID := generateID (random e)\<rparr> else req),
           a\<lparr>Logger := lg\<rparr>))"

definition HandleRequest :: "env \<Rightarrow> Application \<Rightarrow> kv list \<Rightarrow> result" where
  "HandleRequest e a message =
     (case decodeRequest e a message of
        (req, a1) \<Rightarrow>
          (let realIP = getRealClientIP (Some req)
           in case gates e a1 req realIP of
                None \<Rightarrow> None
              | Some (Inl (_, er, a2)) \<Rightarrow> Some (Some er, a2)
              | Some (Inr a2) \<Rightarrow> openAndProcess e a2 req realIP))"

section \<open>The response handler and the eviction callback (application.go)\<close>

definition responseBody :: "env \<Rightarrow> Application \<Rightarrow> txh \<Rightarrow> applicationResponse \<Rightarrow> error option \<times> Application" where
  "responseBody e a h res =
     (let a1 = call a (WriteResponseBody h (ResBody res))
      in case interruptedBy (on_WriteBody e (calls a1)) of
           Some er \<Rightarrow> (Some er, a1)
         | None \<Rightarrow>
             (let a2 = call a1 (ProcessResponseBody h)
              in (interruptedBy (on_ProcessBody e (calls a2)), a2)))"

definition responsePhases :: "env \<Rightarrow> Application \<Rightarrow> txh \<Rightarrow> applicationResponse \<Rightarrow> error option \<times> Application" where
  "responsePhases e a h res =
     (let a1 = call a (IsRuleEngineOff h)
      in if on_IsRuleEngineOff e (calls a1) then (None, a1)
         else case readHeaders (ResHeaders res) of
                (hdrs, er) \<Rightarrow>
                  (let a2 = foldl (\<lambda>s (k, v). call s (AddResponseHeader h k v)) a1 hdrs
                   in case er of
                        Some msg \<Rightarrow> (Some (Errorf (''reading headers: '' @ msg)), a2)
                      | None \<Rightarrow>
                          (let a3 = call a2 (ProcessResponseHeaders h (ResStatus res) (''HTTP/'' @ ResVersion res))
                           in case on_ProcessHeaders e (calls a3) of
                                Some it \<Rightarrow> (Some (ErrInterrupted it), a3)
                              | None \<Rightarrow> responseBody e a3 h res)))"

text \<open>The handler once it holds the lock of the transaction at \<open>t\<close>.\<close>

definition processResponse :: "env \<Rightarrow> Application \<Rightarrow> tref \<Rightarrow> applicationResponse \<Rightarrow> result" where
  "processResponse e a t res =
     (let h = tx (txs a t);
          realIP = getRealClientIP (request (txs a t));
          a1 = (if ResStatus res \<ge> 400 \<and> flowController a then call a (RecordError realIP) else a)
      in case responsePhases e a1 h res of
           (err, a2) \<Rightarrow>
             (case finalize e a2 h (request (txs a t)) realIP of
                None \<Rightarrow> None
              | Some a3 \<Rightarrow> Some (err, a3)))"

definition HandleResponse :: "env \<Rightarrow> Application \<Rightarrow> kv list \<Rightarrow> result" where
  "HandleResponse e a message =
     (if \<not> ResponseCheck a
      then Some (Some (Errorf ''got response but response check is disabled''), a)
      else case parseResponse message zeroResponse (Logger a) of
             (res, lg) \<Rightarrow>
               (let a1 = a\<lparr>Logger := lg\<rparr>
                in if ResID res = [] then Some (Some (Errorf ''response id is empty''), a1)
                   else case cache a1 (ResID res) of
                          None \<Rightarrow> Some (None, logMsg a1 Error ''transaction not found'')
                        | Some t \<Rightarrow>
                            (let a2 = a1\<lparr>cache := (cache a1)(ResID res := None)\<rparr>
                             in case TryLock (m (txs a2 t)) of
                                  (False, _) \<Rightarrow>
                                    Some (Some (Errorf (''transaction is already being deleted: '' @ ResID res)), a2)
                                | (True, locked) \<Rightarrow>
                                    processResponse e
                                      (a2\<lparr>txs := (txs a2)(t := (txs a2 t)\<lparr>m := locked\<rparr>)\<rparr>) t res)))"

text \<open>
  The callback given to the cache, called with the evicted value: it tries the lock, and
  with the lock runs the logging hook and \<open>Close\<close>, without looking at interruptions.
  \<open>evictionRun\<close> is the part that runs with the lock held.
\<close>

definition evictionRun :: "env \<Rightarrow> Application \<Rightarrow> tref \<Rightarrow> Application" where
  "evictionRun e a t =
     (let a1 = call (call a (ProcessLogging (tx (txs a t)))) (Close (tx (txs a t)))
      in case on_Close e (calls a1) of
           None \<Rightarrow> a1
         | Some _ \<Rightarrow> logMsg a1 Error ''error closing transaction'')"

definition evictionCallback :: "env \<Rightarrow> Application \<Rightarrow> tref \<Rightarrow> Application" where
  "evictionCallback e a t =
     (case TryLock (m (txs a t)) of
        (False, _) \<Rightarrow> logMsg a Info ''eviction called on currently used transaction''
      | (True, locked) \<Rightarrow> evictionRun e (a\<lparr>txs := (txs a)(t := (txs a t)\<lparr>m := locked\<rparr>)\<rparr>) t)"

section \<open>Handlers and callbacks running concurrently\<close>

text \<open>
  The handlers run in parallel worker tasks and the cache calls the eviction callback from
  its own task. What they share is the application state; a task is at one of these points
  of its code:
  \<^item> \<open>Resp_Get\<close>: \<open>HandleResponse\<close> has parsed a message with a non-empty id and is before
    \<open>a.cache.Get\<close>;
  \<^item> \<open>Resp_Remove\<close>: the lookup found the transaction at \<open>t\<close>, \<open>a.cache.Remove\<close> is next;
  \<^item> \<open>Resp_TryLock\<close>: \<open>t.m.TryLock()\<close> is next;
  \<^item> \<open>Resp_Owns\<close>: the lock was acquired, the rest of the handler is ahead;
  \<^item> \<open>Evict_TryLock\<close>: the callback was entered with the value \<open>t\<close>;
  \<^item> \<open>Evict_Owns\<close>: the callback acquired the lock;
  \<^item> \<open>Returned\<close>: the task has returned.
\<close>

datatype task =
    Resp_Get applicationResponse
  | Resp_Remove applicationResponse tref
  | Resp_TryLock applicationResponse tref
  | Resp_Owns applicationResponse tref
  | Evict_TryLock tref
  | Evict_Owns tref
  | Returned

text \<open>
  One step of the system: one task runs to its next point, atomically. \<open>TryLock\<close>, the
  cache operations and the map updates are atomic in Go; a request handler (which shares
  no transaction with anybody until it has cached it) and the part of a handler that runs
  with the lock held are taken as one step each. The cache may hand an entry to the
  callback when it expires (\<open>expire\<close>), and it may run the callback on any transaction that
  was ever cached, whether the entry is still there or not (\<open>callback\<close>): this covers a
  sweep racing with \<open>Remove\<close>, and a flush of the cache at shutdown.
\<close>

inductive step :: "env \<Rightarrow> Application \<times> task multiset \<Rightarrow> Application \<times> task multiset \<Rightarrow> bool"
  for e :: env where
  request:
    "HandleRequest e a message = Some (err, a') \<Longrightarrow> step e (a, T) (a', T)"
| response:
    "ResponseCheck a \<Longrightarrow> parseResponse message zeroResponse (Logger a) = (res, lg) \<Longrightarrow> ResID res \<noteq> [] \<Longrightarrow>
       step e (a, T) (a\<lparr>Logger := lg\<rparr>, add_mset (Resp_Get res) T)"
| get_miss:
    "Resp_Get res \<in># T \<Longrightarrow> cache a (ResID res) = None \<Longrightarrow>
       step e (a, T) (logMsg a Error ''transaction not found'', add_mset Returned (T - {#Resp_Get res#}))"
| get_hit:
    "Resp_Get res \<in># T \<Longrightarrow> cache a (ResID res) = Some t \<Longrightarrow>
       step e (a, T) (a, add_mset (Resp_Remove res t) (T - {#Resp_Get res#}))"
| remove:
    "Resp_Remove res t \<in># T \<Longrightarrow>
       step e (a, T) (a\<lparr>cache := (cache a)(ResID res := None)\<rparr>,
                      add_mset (Resp_TryLock res t) (T - {#Resp_Remove res t#}))"
| response_locks:
    "Resp_TryLock res t \<in># T \<Longrightarrow> TryLock (m (txs a t)) = (True, locked) \<Longrightarrow>
       step e (a, T) (a\<lparr>txs := (txs a)(t := (txs a t)\<lparr>m := locked\<rparr>)\<rparr>,
                      add_mset (Resp_Owns res t) (T - {#Resp_TryLock res t#}))"
| response_loses:
    "Resp_TryLock res t \<in># T \<Longrightarrow> TryLock (m (txs a t)) = (False, locked) \<Longrightarrow>
       step e (a, T) (a, add_mset Returned (T - {#Resp_TryLock res t#}))"
| response_runs:
    "Resp_Owns res t \<in># T \<Longrightarrow> processResponse e a t res = Some (err, a') \<Longrightarrow>
       step e (a, T) (a', add_mset Returned (T - {#Resp_Owns res t#}))"
| expire:
    "cache a k = Some t \<Longrightarrow>
       step e (a, T) (a\<lparr>cache := (cache a)(k := None)\<rparr>, add_mset (Evict_TryLock t) T)"
| callback:
    "t < nextTref a \<Longrightarrow> step e (a, T) (a, add_mset (Evict_TryLock t) T)"
| eviction_locks:
    "Evict_TryLock t \<in># T \<Longrightarrow> TryLock (m (txs a t)) = (True, locked) \<Longrightarrow>
       step e (a, T) (a\<lparr>txs := (txs a)(t := (txs a t)\<lparr>m := locked\<rparr>)\<rparr>,
                      add_mset (Evict_Owns t) (T - {#Evict_TryLock t#}))"
| eviction_loses:
    "Evict_TryLock t \<in># T \<Longrightarrow> TryLock (m (txs a t)) = (False, locked) \<Longrightarrow>
       step e (a, T) (logMsg a Info ''eviction called on currently used transaction'',
                      add_mset Returned (T - {#Evict_TryLock t#}))"
| eviction_runs:
    "Evict_Owns t \<in># T \<Longrightarrow>
       step e (a, T) (evictionRun e a t, add_mset Returned (T - {#Evict_Owns t#}))"

text \<open>
  The system starts with no transaction opened, nothing cached and no call made, and is
  then in any state that steps lead to.
\<close>

definition initial :: "Application \<Rightarrow> bool" where
  "initial a \<longleftrightarrow> nextTref a = 0 \<and> nextTx a = 0 \<and> calls a = [] \<and> cache a = Map.empty"

inductive reachable :: "env \<Rightarrow> Application \<times> task multiset \<Rightarrow> bool" for e :: env where
  at_start: "initial a \<Longrightarrow> reachable e (a, {#})"
| after_step: "reachable e c \<Longrightarrow> step e c c' \<Longrightarrow> reachable e c'"

section \<open>Heap order\<close>

text \<open>
  The keys of a heap are the expiry times of its items, in slice order. The slice is in
  heap order up to \<open>n\<close> when no position below \<open>n\<close> holds a key less than its parent's:
  this is what \<open>Less\<close> and the index arithmetic of container/heap maintain.
\<close>

definition keys :: "heap_state \<Rightarrow> time list" where
  "keys S = map (\<lambda>a. expiresAt (fst S a)) (snd S)"

definition parent :: "nat \<Rightarrow> nat" where
  "parent j = (j - 1) div 2"

definition ordered :: "time list \<Rightarrow> nat \<Rightarrow> bool" where
  "ordered ks n \<longleftrightarrow> (\<forall>j. 0 < j \<and> j < n \<longrightarrow> ks ! parent j \<le> ks ! j)"

definition heap_ok :: "heap_state \<Rightarrow> bool" where
  "heap_ok S \<longleftrightarrow> ordered (keys S) (Len S)"

text \<open>
  Every item in the heap knows its position, and no item is in the heap twice.
\<close>

definition idx_ok :: "heap_state \<Rightarrow> bool" where
  "idx_ok S \<longleftrightarrow>
     distinct (snd S) \<and> (\<forall>k < length (snd S). index (fst S (snd S ! k)) = int k)"

text \<open>
  The loop invariants. \<open>sink_inv ks i n\<close>: heap order holds below \<open>n\<close> except between \<open>i\<close>
  and its children, and the parent of \<open>i\<close> is not above the children of \<open>i\<close>.
  \<open>swim_inv ks j n\<close>: heap order holds below \<open>n\<close> except between \<open>j\<close> and its parent, and
  the parent of \<open>j\<close> is not above the children of \<open>j\<close>.
\<close>

definition sink_inv :: "time list \<Rightarrow> nat \<Rightarrow> nat \<Rightarrow> bool" where
  "sink_inv ks i n \<longleftrightarrow>
     (\<forall>j. 0 < j \<and> j < n \<and> parent j \<noteq> i \<longrightarrow> ks ! parent j \<le> ks ! j) \<and>
     (\<forall>j. 0 < j \<and> j < n \<and> parent j = i \<and> 0 < i \<longrightarrow> ks ! parent i \<le> ks ! j)"

definition swim_inv :: "time list \<Rightarrow> nat \<Rightarrow> nat \<Rightarrow> bool" where
  "swim_inv ks j n \<longleftrightarrow>
     (\<forall>c. 0 < c \<and> c < n \<and> c \<noteq> j \<longrightarrow> ks ! parent c \<le> ks ! c) \<and>
     (\<forall>c. 0 < c \<and> c < n \<and> parent c = j \<and> 0 < j \<longrightarrow> ks ! parent j \<le> ks ! c)"

text \<open>
  \<open>same_items S S'\<close>: the two heaps hold the same items with the same addresses and
  expiry times, and position bookkeeping that was right in \<open>S\<close> is right in \<open>S'\<close>.
\<close>

definition same_items :: "heap_state \<Rightarrow> heap_state \<Rightarrow> bool" where
  "same_items S S' \<longleftrightarrow>
     length (snd S') = length (snd S) \<and> mset (snd S') = mset (snd S) \<and>
     (\<forall>a. ip (fst S' a) = ip (fst S a) \<and> expiresAt (fst S' a) = expiresAt (fst S a)) \<and>
     (\<forall>a. a \<notin> set (snd S) \<longrightarrow> fst S' a = fst S a) \<and>
     (idx_ok S \<longrightarrow> idx_ok S')"

lemma same_items_refl: "same_items S S"
  by (simp add: same_items_def)

lemma same_items_trans: "same_items S T \<Longrightarrow> same_items T U \<Longrightarrow> same_items S U"
  unfolding same_items_def by (metis mset_eq_setD)

lemma parent_less: "0 < j \<Longrightarrow> parent j < j"
  by (auto simp: parent_def)

lemma parent_child: "parent j = i \<and> 0 < j \<longleftrightarrow> j = 2 * i + 1 \<or> j = 2 * i + 2"
  by (auto simp: parent_def)

lemma expiresAt_set_index [simp]: "expiresAt (set_index st a k b) = expiresAt (st b)"
  by (simp add: set_index_def)

lemma ip_set_index [simp]: "ip (set_index st a k b) = ip (st b)"
  by (simp add: set_index_def)

lemma index_set_index: "index (set_index st a k b) = (if b = a then k else index (st b))"
  by (simp add: set_index_def)

lemma set_index_other: "b \<noteq> a \<Longrightarrow> set_index st a k b = st b"
  by (simp add: set_index_def)

lemma snd_Swap: "snd (Swap S i j) = (snd S)[i := snd S ! j, j := snd S ! i]"
  by (simp add: Swap_def Let_def)

lemma fst_Swap_fields:
  "ip (fst (Swap S i j) a) = ip (fst S a)" "expiresAt (fst (Swap S i j) a) = expiresAt (fst S a)"
  by (simp_all add: Swap_def Let_def)

lemma keys_Swap:
  assumes "i < Len S" "j < Len S"
  shows "keys (Swap S i j) = (keys S)[i := keys S ! j, j := keys S ! i]"
  using assms
  by (simp add: keys_def snd_Swap fst_Swap_fields Len_def map_update)

lemma Less_keys: "i < Len S \<Longrightarrow> j < Len S \<Longrightarrow> Less S i j \<longleftrightarrow> keys S ! i < keys S ! j"
  by (simp add: Less_def keys_def Before_def Len_def)

lemma length_keys [simp]: "length (keys S) = Len S"
  by (simp add: keys_def Len_def)

lemma mset_swap_list: "i < length xs \<Longrightarrow> j < length xs \<Longrightarrow> mset (xs[i := xs ! j, j := xs ! i]) = mset xs"
  by (simp add: mset_swap)

lemma idx_ok_Swap:
  assumes "i < Len S" "j < Len S" "idx_ok S"
  shows "idx_ok (Swap S i j)"
proof -
  define h where "h = snd S"
  define h' where "h' = h[i := h ! j, j := h ! i]"
  from assms have d: "distinct h" and ix: "\<forall>k < length h. index (fst S (h ! k)) = int k"
    by (simp_all add: idx_ok_def h_def)
  have li: "i < length h" and lj: "j < length h"
    using assms(1,2) by (simp_all add: Len_def h_def)
  have len: "length h' = length h"
    by (simp add: h'_def)
  have "mset h' = mset h"
    using li lj by (simp add: h'_def mset_swap_list)
  with d have d': "distinct h'"
    by (metis distinct_count_atmost_1 set_mset_mset)
  have hi: "h' ! i = h ! j" and hj: "h' ! j = h ! i"
    using li lj by (auto simp: h'_def nth_list_update)
  have st: "fst (Swap S i j) = set_index (set_index (fst S) (h' ! i) (int i)) (h' ! j) (int j)"
    by (simp add: Swap_def Let_def h_def h'_def)
  have "index (fst (Swap S i j) (h' ! k)) = int k" if k: "k < length h" for k
  proof (cases "k = j")
    case True
    then show ?thesis by (simp add: st index_set_index)
  next
    case kj: False
    with d' k lj len have nj: "h' ! k \<noteq> h' ! j"
      by (simp add: distinct_conv_nth)
    show ?thesis
    proof (cases "k = i")
      case True
      with nj show ?thesis by (simp add: st index_set_index)
    next
      case ki: False
      with d' k li len have ni: "h' ! k \<noteq> h' ! i"
        by (simp add: distinct_conv_nth)
      from ki kj have "h' ! k = h ! k" by (simp add: h'_def)
      with ni nj ix k show ?thesis
        by (simp add: st index_set_index)
    qed
  qed
  with d' len show ?thesis
    by (simp add: idx_ok_def snd_Swap h_def h'_def)
qed

lemma same_items_Swap:
  assumes "i < Len S" "j < Len S"
  shows "same_items S (Swap S i j)"
proof -
  have "fst (Swap S i j) a = fst S a" if "a \<notin> set (snd S)" for a
  proof -
    from assms that have "a \<noteq> snd S ! i" "a \<noteq> snd S ! j"
      by (auto simp: Len_def)
    with assms show ?thesis
      by (auto simp: Swap_def Let_def set_index_def Len_def nth_list_update)
  qed
  with assms show ?thesis
    by (auto simp: same_items_def snd_Swap fst_Swap_fields mset_swap_list Len_def idx_ok_Swap)
qed
lemma sink_stop:
  assumes "sink_inv ks i n"
      and "\<forall>c. (c = 2 * i + 1 \<or> c = 2 * i + 2) \<and> c < n \<longrightarrow> ks ! i \<le> ks ! c"
  shows "ordered ks n"
  unfolding ordered_def
proof (intro allI impI)
  fix j assume j: "0 < j \<and> j < n"
  show "ks ! parent j \<le> ks ! j"
  proof (cases "parent j = i")
    case True
    with j have "j = 2 * i + 1 \<or> j = 2 * i + 2"
      using parent_child [of j i] by simp
    with assms(2) j True show ?thesis by auto
  next
    case False
    with assms(1) j show ?thesis by (simp add: sink_inv_def)
  qed
qed

lemma sink_step:
  assumes inv: "sink_inv ks i n"
      and len: "n \<le> length ks"
      and j: "j = 2 * i + 1 \<or> j = 2 * i + 2" "j < n"
      and lt: "ks ! j < ks ! i"
      and least: "\<forall>c. (c = 2 * i + 1 \<or> c = 2 * i + 2) \<and> c < n \<longrightarrow> ks ! j \<le> ks ! c"
  shows "sink_inv (ks[i := ks ! j, j := ks ! i]) j n"
proof -
  define ks' where "ks' = ks[i := ks ! j, j := ks ! i]"
  from j have ij: "i < j" and pj: "parent j = i" and j0: "0 < j"
    using parent_child [of j i] by auto
  from ij j len have li: "i < length ks" and lj: "j < length ks" by simp_all
  have vi: "ks' ! i = ks ! j" and vj: "ks' ! j = ks ! i"
    using li lj ij by (simp_all add: ks'_def)
  have vo: "ks' ! k = ks ! k" if "k \<noteq> i" "k \<noteq> j" for k
    using that by (simp add: ks'_def)
  have "ks' ! parent c \<le> ks' ! c" if c: "0 < c" "c < n" "parent c \<noteq> j" for c
  proof -
    consider (cj) "c = j" | (sib) "parent c = i" "c \<noteq> j" | (ci) "c = i" | (other) "c \<noteq> i" "c \<noteq> j" "parent c \<noteq> i"
      by blast
    then show ?thesis
    proof cases
      case cj
      with pj vi vj lt show ?thesis by simp
    next
      case sib
      with c have "c = 2 * i + 1 \<or> c = 2 * i + 2"
        using parent_child [of c i] by simp
      with least c have "ks ! j \<le> ks ! c" by blast
      moreover from sib c have "c \<noteq> i" using parent_less [of c] by auto
      ultimately show ?thesis using sib vi vo [of c] by simp
    next
      case ci
      with c have i0: "0 < i" by simp
      from inv pj j j0 i0 have "ks ! parent i \<le> ks ! j"
        by (simp add: sink_inv_def)
      moreover have "parent i \<noteq> i" "parent i \<noteq> j"
        using parent_less [OF i0] ij by auto
      ultimately show ?thesis using ci vi vo [of "parent i"] by simp
    next
      case other
      with inv c have "ks ! parent c \<le> ks ! c" by (simp add: sink_inv_def)
      with other c vo [of c] vo [of "parent c"] show ?thesis by simp
    qed
  qed
  moreover have "ks' ! parent j \<le> ks' ! c" if c: "0 < c" "c < n" "parent c = j" for c
  proof -
    from c ij have "c \<noteq> i" "c \<noteq> j" using parent_less [of c] by auto
    moreover from inv c ij have "ks ! j \<le> ks ! c"
      by (auto simp: sink_inv_def)
    ultimately show ?thesis using pj vi vo [of c] by simp
  qed
  ultimately show ?thesis
    unfolding sink_inv_def ks'_def by blast
qed

lemma swim_stop:
  assumes "swim_inv ks j n" and "j = 0 \<or> ks ! parent j \<le> ks ! j"
  shows "ordered ks n"
  unfolding ordered_def
proof (intro allI impI)
  fix c assume c: "0 < c \<and> c < n"
  show "ks ! parent c \<le> ks ! c"
  proof (cases "c = j")
    case True
    with assms(2) c show ?thesis by auto
  next
    case False
    with assms(1) c show ?thesis by (simp add: swim_inv_def)
  qed
qed

lemma swim_step:
  assumes inv: "swim_inv ks j n"
      and len: "n \<le> length ks" "j < n" "0 < j"
      and lt: "ks ! j < ks ! parent j"
  shows "swim_inv (ks[parent j := ks ! j, j := ks ! parent j]) (parent j) n"
proof -
  define i where "i = parent j"
  define ks' where "ks' = ks[i := ks ! j, j := ks ! i]"
  have ij: "i < j" using parent_less [OF len(3)] by (simp add: i_def)
  from ij len have li: "i < length ks" and lj: "j < length ks" by simp_all
  have vi: "ks' ! i = ks ! j" and vj: "ks' ! j = ks ! i"
    using li lj ij by (simp_all add: ks'_def)
  have vo: "ks' ! k = ks ! k" if "k \<noteq> i" "k \<noteq> j" for k
    using that by (simp add: ks'_def)
  have "ks' ! parent c \<le> ks' ! c" if c: "0 < c" "c < n" "c \<noteq> i" for c
  proof -
    consider (cj) "c = j" | (sib) "parent c = i" "c \<noteq> j" | (kid) "parent c = j" | (other) "c \<noteq> j" "parent c \<noteq> i" "parent c \<noteq> j"
      by blast
    then show ?thesis
    proof cases
      case cj
      with vi vj lt show ?thesis by (simp add: i_def)
    next
      case sib
      with inv c have "ks ! i \<le> ks ! c" by (auto simp: swim_inv_def)
      with lt sib c vi vo [of c] show ?thesis by (simp add: i_def)
    next
      case kid
      with inv c len have "ks ! i \<le> ks ! c" by (auto simp: swim_inv_def i_def)
      moreover from kid c ij have "c \<noteq> j" "c \<noteq> i" using parent_less [of c] by auto
      ultimately show ?thesis using kid vj vo [of c] by simp
    next
      case other
      with inv c have "ks ! parent c \<le> ks ! c" by (simp add: swim_inv_def)
      with other c vo [of c] vo [of "parent c"] show ?thesis by simp
    qed
  qed
  moreover have "ks' ! parent i \<le> ks' ! c" if c: "0 < c" "c < n" "parent c = i" "0 < i" for c
  proof -
    have pi: "parent i \<noteq> i" "parent i \<noteq> j"
      using parent_less [OF c(4)] ij by auto
    from inv c(4) ij len have up: "ks ! parent i \<le> ks ! i"
      by (auto simp: swim_inv_def)
    show ?thesis
    proof (cases "c = j")
      case True
      with up pi vj vo [of "parent i"] show ?thesis by simp
    next
      case False
      with inv c have "ks ! i \<le> ks ! c" by (auto simp: swim_inv_def)
      moreover from c have "c \<noteq> i" using parent_less [of c] by auto
      ultimately show ?thesis using up pi False vo [of c] vo [of "parent i"] by simp
    qed
  qed
  ultimately show ?thesis
    unfolding swim_inv_def ks'_def i_def by blast
qed

lemma downLoop_stop:
  "n \<le> 2 * i + 1 \<or> \<not> Less S (pick_child S (2 * i + 1) n) i \<Longrightarrow> downLoop S i n = (S, i)"
  by (subst downLoop.simps) (auto simp: Let_def)

lemma downLoop_step:
  "2 * i + 1 < n \<Longrightarrow> Less S (pick_child S (2 * i + 1) n) i \<Longrightarrow>
     downLoop S i n = downLoop (Swap S i (pick_child S (2 * i + 1) n)) (pick_child S (2 * i + 1) n) n"
  by (subst downLoop.simps) (simp add: Let_def)

lemma pick_child_range:
  "2 * i + 1 < n \<Longrightarrow>
     (pick_child S (2 * i + 1) n = 2 * i + 1 \<or> pick_child S (2 * i + 1) n = 2 * i + 2) \<and>
     pick_child S (2 * i + 1) n < n"
  by (auto simp: pick_child_def)

lemma pick_child_least:
  assumes "2 * i + 1 < n" "n \<le> Len S" "(c = 2 * i + 1 \<or> c = 2 * i + 2) \<and> c < n"
  shows "keys S ! pick_child S (2 * i + 1) n \<le> keys S ! c"
  using assms by (auto simp: pick_child_def Less_keys)

text \<open>
  What \<open>downLoop\<close> does to a heap of at least \<open>n\<close> items: the items stay the same, the
  positions from \<open>n\<close> on are untouched, the position returned is not above the start and
  equals it only if nothing moved, and the sink invariant becomes heap order below \<open>n\<close>.
\<close>

lemma downLoop_props:
  assumes "n \<le> Len S"
  shows "same_items S (fst (downLoop S i n)) \<and>
         (\<forall>k \<ge> n. snd (fst (downLoop S i n)) ! k = snd S ! k) \<and>
         i \<le> snd (downLoop S i n) \<and>
         (snd (downLoop S i n) = i \<longrightarrow> fst (downLoop S i n) = S) \<and>
         (sink_inv (keys S) i n \<longrightarrow> ordered (keys (fst (downLoop S i n))) n)"
  using assms
proof (induction S i n rule: downLoop.induct)
  case (1 S i n)
  define j where "j = pick_child S (2 * i + 1) n"
  show ?case
  proof (cases "n \<le> 2 * i + 1 \<or> \<not> Less S j i")
    case True
    then have eq: "downLoop S i n = (S, i)"
      by (simp add: downLoop_stop j_def)
    have "ordered (keys S) n" if inv: "sink_inv (keys S) i n"
    proof (rule sink_stop [OF inv], intro allI impI)
      fix c assume c: "(c = 2 * i + 1 \<or> c = 2 * i + 2) \<and> c < n"
      then have lt: "2 * i + 1 < n" by auto
      with True have nl: "\<not> Less S j i" by simp
      from pick_child_range [OF lt, of S] have jn: "j < n" and ij: "i < j"
        by (auto simp: j_def)
      with nl "1.prems" have "keys S ! i \<le> keys S ! j"
        by (simp add: Less_keys)
      also have "\<dots> \<le> keys S ! c"
        using pick_child_least [OF lt "1.prems" c] by (simp add: j_def)
      finally show "keys S ! i \<le> keys S ! c" .
    qed
    with eq show ?thesis
      by (simp add: same_items_refl)
  next
    case False
    then have lt: "2 * i + 1 < n" and ls: "Less S j i" by auto
    from pick_child_range [OF lt, of S] have jc: "j = 2 * i + 1 \<or> j = 2 * i + 2" and jn: "j < n"
      by (auto simp: j_def)
    then have ij: "i < j" by auto
    from jn ij "1.prems" have jl: "j < Len S" and il: "i < Len S" by simp_all
    define S1 where "S1 = Swap S i j"
    have eq: "downLoop S i n = downLoop S1 j n"
      using downLoop_step [OF lt] ls by (simp add: j_def S1_def)
    have len1: "n \<le> Len S1"
      using "1.prems" by (simp add: S1_def Len_Swap)
    have IH: "same_items S1 (fst (downLoop S1 j n)) \<and>
         (\<forall>k \<ge> n. snd (fst (downLoop S1 j n)) ! k = snd S1 ! k) \<and>
         j \<le> snd (downLoop S1 j n) \<and>
         (snd (downLoop S1 j n) = j \<longrightarrow> fst (downLoop S1 j n) = S1) \<and>
         (sink_inv (keys S1) j n \<longrightarrow> ordered (keys (fst (downLoop S1 j n))) n)"
      using "1.IH" [OF refl _ refl] lt ls len1
      by (simp add: S1_def j_def)
    have s1: "same_items S S1"
      using same_items_Swap [OF il jl] by (simp add: S1_def)
    have fr: "snd S1 ! k = snd S ! k" if "n \<le> k" for k
      using that jn ij by (simp add: S1_def snd_Swap)
    have "sink_inv (keys S1) j n" if inv: "sink_inv (keys S) i n"
    proof -
      have "keys S ! j < keys S ! i"
        using ls il jl by (simp add: Less_keys)
      moreover have "\<forall>c. (c = 2 * i + 1 \<or> c = 2 * i + 2) \<and> c < n \<longrightarrow> keys S ! j \<le> keys S ! c"
        using pick_child_least [OF lt "1.prems"] by (simp add: j_def)
      ultimately have "sink_inv ((keys S)[i := keys S ! j, j := keys S ! i]) j n"
        using sink_step [OF inv _ jc jn] "1.prems" by simp
      then show ?thesis
        by (simp add: S1_def keys_Swap [OF il jl])
    qed
    with IH s1 fr ij eq show ?thesis
      by (auto intro: same_items_trans)
  qed
qed

lemma up_stop: "parent j = j \<or> \<not> Less S j (parent j) \<Longrightarrow> up S j = S"
  by (subst up.simps) (auto simp: Let_def parent_def)

lemma up_step: "parent j \<noteq> j \<Longrightarrow> Less S j (parent j) \<Longrightarrow> up S j = up (Swap S (parent j) j) (parent j)"
  by (subst up.simps) (simp add: Let_def parent_def)

lemma parent_fix: "parent j = j \<longleftrightarrow> j = 0"
  by (auto simp: parent_def)

lemma up_props:
  assumes "j < Len S"
  shows "same_items S (up S j) \<and>
         (swim_inv (keys S) j (Len S) \<longrightarrow> ordered (keys (up S j)) (Len S))"
  using assms
proof (induction S j rule: up.induct)
  case (1 S j)
  show ?case
  proof (cases "parent j = j \<or> \<not> Less S j (parent j)")
    case True
    then have eq: "up S j = S" by (rule up_stop)
    have "ordered (keys S) (Len S)" if inv: "swim_inv (keys S) j (Len S)"
    proof (rule swim_stop [OF inv])
      show "j = 0 \<or> keys S ! parent j \<le> keys S ! j"
      proof (cases "j = 0")
        case False
        with True have "\<not> Less S j (parent j)" by (simp add: parent_fix)
        moreover from False "1.prems" have "parent j < Len S"
          using parent_less [of j] by simp
        ultimately show ?thesis using "1.prems" by (simp add: Less_keys)
      qed simp
    qed
    with eq show ?thesis by (simp add: same_items_refl)
  next
    case False
    then have j0: "0 < j" and ls: "Less S j (parent j)"
      by (auto simp: parent_fix)
    define i where "i = parent j"
    have ij: "i < j" using parent_less [OF j0] by (simp add: i_def)
    with "1.prems" have il: "i < Len S" by simp
    define S1 where "S1 = Swap S i j"
    have eq: "up S j = up S1 i"
      using up_step [of j S] False by (simp add: S1_def i_def)
    have IH: "same_items S1 (up S1 i) \<and>
         (swim_inv (keys S1) i (Len S1) \<longrightarrow> ordered (keys (up S1 i)) (Len S1))"
      using "1.IH" [OF refl] False il
      by (simp add: S1_def i_def parent_def Len_Swap)
    have s1: "same_items S S1"
      using same_items_Swap [OF il "1.prems"] by (simp add: S1_def)
    have "swim_inv (keys S1) i (Len S1)" if inv: "swim_inv (keys S) j (Len S)"
    proof -
      have "keys S ! j < keys S ! parent j"
        using ls il "1.prems" by (simp add: Less_keys i_def)
      then have "swim_inv ((keys S)[parent j := keys S ! j, j := keys S ! parent j]) (parent j) (Len S)"
        using swim_step [OF inv _ "1.prems" j0] by simp
      then show ?thesis
        using keys_Swap [OF il "1.prems"] by (simp add: S1_def i_def Len_Swap)
    qed
    with IH s1 eq show ?thesis
      by (auto intro: same_items_trans simp: S1_def Len_Swap)
  qed
qed


lemma ordered_root_least:
  assumes "ordered ks n" "k < n"
  shows "ks ! 0 \<le> ks ! k"
  using assms(2)
proof (induction k rule: less_induct)
  case (less k)
  show ?case
  proof (cases "k = 0")
    case False
    then have "parent k < k" by (simp add: parent_less)
    with less have "ks ! 0 \<le> ks ! parent k" by simp
    also from assms(1) False less.prems have "\<dots> \<le> ks ! k"
      by (simp add: ordered_def)
    finally show ?thesis .
  qed simp
qed

lemma heap_ok_root_least:
  assumes "heap_ok S" "b \<in> set (snd S)"
  shows "expiresAt (fst S (snd S ! 0)) \<le> expiresAt (fst S b)"
proof -
  from assms(2) obtain k where k: "k < length (snd S)" "snd S ! k = b"
    by (auto simp: in_set_conv_nth)
  with assms(1) have "keys S ! 0 \<le> keys S ! k"
    by (intro ordered_root_least [of _ "Len S"]) (simp_all add: heap_ok_def Len_def)
  moreover from k have "0 < length (snd S)" by auto
  ultimately show ?thesis
    using k by (simp add: keys_def)
qed

text \<open>
  \<open>heap.Pop\<close> on a heap in order: it returns the item at the root, and what is left is
  the other items, in heap order, each knowing its position.
\<close>

lemma heap_Pop_props:
  assumes "0 < Len S" "heap_ok S" "idx_ok S"
  shows "\<exists>S'. heap_Pop S = Some (snd S ! 0, S') \<and> heap_ok S' \<and> idx_ok S' \<and>
           mset (snd S) = add_mset (snd S ! 0) (mset (snd S')) \<and>
           (\<forall>a. ip (fst S' a) = ip (fst S a) \<and> expiresAt (fst S' a) = expiresAt (fst S a))"
proof -
  define n where "n = Len S - 1"
  define S1 where "S1 = Swap S 0 n"
  define S2 where "S2 = fst (downLoop S1 0 n)"
  from assms(1) have len: "Len S = Suc n" and l0: "0 < Len S" and ln: "n < Len S"
    by (simp_all add: n_def)
  have len1: "Len S1 = Suc n" by (simp add: S1_def Len_Swap len)
  have k1: "keys S1 = (keys S)[0 := keys S ! n, n := keys S ! 0]"
    using keys_Swap [OF l0 ln] by (simp add: S1_def)
  have s1: "same_items S S1"
    using same_items_Swap [OF l0 ln] by (simp add: S1_def)
  have last1: "snd S1 ! n = snd S ! 0"
    using ln by (simp add: S1_def snd_Swap Len_def)
  have "sink_inv (keys S1) 0 n"
    unfolding sink_inv_def
  proof (intro conjI allI impI)
    fix j assume j: "0 < j \<and> j < n \<and> parent j \<noteq> 0"
    then have "parent j < j" by (simp add: parent_less)
    with j have "keys S1 ! parent j = keys S ! parent j" "keys S1 ! j = keys S ! j"
      by (simp_all add: k1)
    moreover from assms(2) j len have "keys S ! parent j \<le> keys S ! j"
      by (simp add: heap_ok_def ordered_def)
    ultimately show "keys S1 ! parent j \<le> keys S1 ! j" by simp
  qed simp
  moreover have nl: "n \<le> Len S1" by (simp add: len1)
  ultimately have o2: "ordered (keys S2) n" and s2: "same_items S1 S2"
    and fr: "snd S2 ! n = snd S1 ! n"
    using downLoop_props [OF nl, of 0] by (simp_all add: S2_def)
  from s1 s2 have s: "same_items S S2" by (rule same_items_trans)
  then have len2: "length (snd S2) = Suc n" and m2: "mset (snd S2) = mset (snd S)"
    and f2: "\<forall>a. ip (fst S2 a) = ip (fst S a) \<and> expiresAt (fst S2 a) = expiresAt (fst S a)"
    and i2: "idx_ok S2"
    using assms(3) len by (simp_all add: same_items_def Len_def)
  from len2 have ne: "snd S2 \<noteq> []" by auto
  from len2 have la: "last (snd S2) = snd S ! 0"
    using fr last1 by (simp add: last_conv_nth ne)
  define S' where "S' = (set_index (fst S2) (snd S ! 0) (- 1), butlast (snd S2))"
  obtain q where dl: "downLoop S1 0 n = (S2, q)"
    by (cases "downLoop S1 0 n") (simp add: S2_def)
  have "heap_Pop S = Pop S2"
    using assms(1) dl by (simp add: heap_Pop_def Let_def down_def S1_def n_def)
  then have pop: "heap_Pop S = Some (snd S ! 0, S')"
    using ne la by (simp add: Pop_def S'_def Let_def)
  have sp: "snd S2 = snd S' @ [snd S ! 0]"
    using ne la by (simp add: S'_def) (metis append_butlast_last_id)
  have lenp: "Len S' = n"
    using len2 by (simp add: S'_def Len_def)
  have "keys S' = take n (keys S2)"
    using len2 by (simp add: keys_def S'_def butlast_conv_take take_map)
  with o2 have "heap_ok S'"
    by (simp add: heap_ok_def lenp ordered_def) (metis less_trans nth_take parent_less)
  moreover have "idx_ok S'"
  proof -
    from i2 sp have d: "distinct (snd S' @ [snd S ! 0])"
      by (simp add: idx_ok_def)
    have "index (fst S' (snd S' ! k)) = int k" if "k < length (snd S')" for k
    proof -
      from d have "snd S ! 0 \<notin> set (snd S')" by simp
      with nth_mem [OF that] have "snd S' ! k \<noteq> snd S ! 0" by metis
      moreover from i2 sp that have "index (fst S2 (snd S' ! k)) = int k"
        by (simp add: idx_ok_def) (metis less_SucI nth_append)
      ultimately show ?thesis
        by (simp add: S'_def index_set_index)
    qed
    with d show ?thesis by (simp add: idx_ok_def)
  qed
  moreover have "mset (snd S) = add_mset (snd S ! 0) (mset (snd S'))"
    using m2 sp by (metis mset.simps(2) mset_append union_mset_add_mset_right add.right_neutral mset.simps(1))
  moreover have "\<forall>a. ip (fst S' a) = ip (fst S a) \<and> expiresAt (fst S' a) = expiresAt (fst S a)"
    using f2 by (simp add: S'_def)
  ultimately show ?thesis using pop by blast
qed


lemma ordered_swim_inv: "ordered ks n \<Longrightarrow> swim_inv ks j n"
  unfolding ordered_def swim_inv_def
  by (metis order_trans parent_less less_trans)

text \<open>\<open>heap.Push\<close> of an item that is not in the heap.\<close>

lemma heap_Push_props:
  assumes "heap_ok S" "idx_ok S" "x \<notin> set (snd S)"
  shows "heap_ok (heap_Push S x) \<and> idx_ok (heap_Push S x) \<and>
         mset (snd (heap_Push S x)) = add_mset x (mset (snd S)) \<and>
         (\<forall>a. ip (fst (heap_Push S x) a) = ip (fst S a) \<and>
              expiresAt (fst (heap_Push S x) a) = expiresAt (fst S a))"
proof -
  define n where "n = length (snd S)"
  define P where "P = Push S x"
  have lenP: "Len P = Suc n" by (simp add: P_def Push_def Len_def n_def)
  have kP: "keys P = keys S @ [expiresAt (fst S x)]"
    by (simp add: P_def Push_def keys_def)
  have iP: "idx_ok P"
  proof -
    have "index (fst P (snd P ! k)) = int k" if "k < Suc n" for k
    proof (cases "k = n")
      case True
      then show ?thesis by (simp add: P_def Push_def n_def index_set_index)
    next
      case False
      with that have k: "k < length (snd S)" by (simp add: n_def)
      with assms(3) have "snd S ! k \<noteq> x" using nth_mem [OF k] by metis
      with assms(2) k show ?thesis
        by (simp add: P_def Push_def index_set_index nth_append idx_ok_def)
    qed
    with assms(2,3) show ?thesis
      by (simp add: idx_ok_def P_def Push_def n_def)
  qed
  have "swim_inv (keys P) n (Suc n)"
    unfolding swim_inv_def
  proof (intro conjI allI impI)
    fix c assume c: "0 < c \<and> c < Suc n \<and> c \<noteq> n"
    then have "c < n" "parent c < n" using parent_less [of c] by auto
    with assms(1) c show "keys P ! parent c \<le> keys P ! c"
      by (simp add: kP nth_append heap_ok_def ordered_def Len_def n_def)
  next
    fix c assume c: "0 < c \<and> c < Suc n \<and> parent c = n \<and> 0 < n"
    then have False using parent_less [of c] by auto
    then show "keys P ! parent n \<le> keys P ! c" ..
  qed
  with up_props [of n P] lenP have s: "same_items P (up P n)" and o: "ordered (keys (up P n)) (Suc n)"
    by simp_all
  have e: "heap_Push S x = up P n"
    by (simp add: heap_Push_def Let_def P_def lenP [unfolded P_def])
  from s lenP have "Len (up P n) = Suc n" by (simp add: same_items_def Len_def)
  with o have "heap_ok (up P n)" by (simp add: heap_ok_def)
  moreover from s iP have "idx_ok (up P n)" by (simp add: same_items_def)
  moreover from s have "mset (snd (up P n)) = add_mset x (mset (snd S))"
    by (simp add: same_items_def P_def Push_def)
  moreover from s have "\<forall>a. ip (fst (up P n) a) = ip (fst S a) \<and>
      expiresAt (fst (up P n) a) = expiresAt (fst S a)"
    by (simp add: same_items_def P_def Push_def)
  ultimately show ?thesis by (simp add: e)
qed

text \<open>
  \<open>Update\<close> of the item at position \<open>p\<close>: the new expiry is written and \<open>heap.Fix\<close>
  restores the order. The heap keeps its items; only this item's expiry changes.
\<close>

lemma Update_props:
  assumes "heap_ok S" "idx_ok S" "p < Len S" "item = snd S ! p"
  shows "\<exists>S'. Update S item t = Some S' \<and> heap_ok S' \<and> idx_ok S' \<and>
           length (snd S') = length (snd S) \<and> mset (snd S') = mset (snd S) \<and>
           (\<forall>a. ip (fst S' a) = ip (fst S a) \<and>
                expiresAt (fst S' a) = (if a = item then t else expiresAt (fst S a)))"
proof -
  define n where "n = Len S"
  define S0 where "S0 = ((fst S)(item := (fst S item)\<lparr>expiresAt := t\<rparr>), snd S)"
  have len0: "Len S0 = n" by (simp add: S0_def Len_def n_def)
  have pn: "p < n" using assms(3) by (simp add: n_def)
  from assms(2) have d: "distinct (snd S)" by (simp add: idx_ok_def)
  have ix: "index (fst S0 item) = int p"
    using assms(2,3,4) by (simp add: S0_def idx_ok_def Len_def)
  have i0: "idx_ok S0"
    using assms(2) by (auto simp: idx_ok_def S0_def)
  have kp: "keys S0 ! p = t"
    using assms(3,4) by (simp add: keys_def S0_def Len_def)
  have ko: "keys S0 ! k = keys S ! k" if "k < n" "k \<noteq> p" for k
  proof -
    from that d assms(3,4) have "snd S ! k \<noteq> item"
      by (simp add: distinct_conv_nth Len_def n_def)
    with that show ?thesis by (simp add: keys_def S0_def Len_def n_def)
  qed
  have old: "keys S ! parent c \<le> keys S ! c" if "0 < c" "c < n" for c
    using assms(1) that by (simp add: heap_ok_def ordered_def n_def)
  have f0: "ip (fst S0 a) = ip (fst S a) \<and>
      expiresAt (fst S0 a) = (if a = item then t else expiresAt (fst S a))" for a
    by (simp add: S0_def)
  have upd: "Update S item t = heap_Fix S0 (int p)"
    using ix by (simp add: Update_def Let_def S0_def)
  obtain S1 q where dl: "downLoop S0 p n = (S1, q)"
    by (cases "downLoop S0 p n") auto
  have hf: "heap_Fix S0 (int p) = Some (if p < q then S1 else up S1 p)"
    using pn dl by (simp add: heap_Fix_def len0 down_def)
  from downLoop_props [of n S0 p] dl len0 have
    s1: "same_items S0 S1" and stay: "q = p \<longrightarrow> S1 = S0" and pq: "p \<le> q"
    and o1: "sink_inv (keys S0) p n \<longrightarrow> ordered (keys S1) n"
    by simp_all
  have fin: "\<exists>S'. heap_Fix S0 (int p) = Some S' \<and> same_items S0 S' \<and> ordered (keys S') n"
  proof (cases "p = 0 \<or> keys S ! parent p \<le> t")
    case True
    have "sink_inv (keys S0) p n"
      unfolding sink_inv_def
    proof (intro conjI allI impI)
      fix j assume j: "0 < j \<and> j < n \<and> parent j \<noteq> p"
      then have pj: "parent j < n" using parent_less [of j] by simp
      show "keys S0 ! parent j \<le> keys S0 ! j"
      proof (cases "j = p")
        case jp: True
        with j True have "keys S ! parent p \<le> t" by simp
        moreover from j jp pj have "keys S0 ! parent p = keys S ! parent p"
          using parent_less [of p] by (simp add: ko)
        ultimately show ?thesis using jp kp by simp
      next
        case False
        with j pj old [of j] show ?thesis by (simp add: ko)
      qed
    next
      fix j assume j: "0 < j \<and> j < n \<and> parent j = p \<and> 0 < p"
      then have "j \<noteq> p" "parent p \<noteq> p" "parent p < n"
        using parent_less [of j] parent_less [of p] pn by auto
      moreover from j pn old [of j] old [of p] have "keys S ! parent p \<le> keys S ! j" by auto
      ultimately show "keys S0 ! parent p \<le> keys S0 ! j" using j by (simp add: ko)
    qed
    with o1 have o: "ordered (keys S1) n" by simp
    show ?thesis
    proof (cases "p < q")
      case True
      with hf s1 o show ?thesis by simp
    next
      case False
      with pq stay have e: "S1 = S0" by simp
      from o e have "swim_inv (keys S0) p n" by (simp add: ordered_swim_inv)
      with up_props [of p S0] pn len0 hf False e show ?thesis by simp
    qed
  next
    case False
    then have p0: "0 < p" and lt: "t < keys S ! parent p" by auto
    have pp: "parent p < n" "parent p \<noteq> p" using parent_less [OF p0] pn by auto
    have kids: "t < keys S0 ! c" if c: "0 < c" "c < n" "parent c = p" for c
    proof -
      from c have "c \<noteq> p" using parent_less [of c] by auto
      moreover from old [of c] old [of p] c p0 pn have "keys S ! parent p \<le> keys S ! c" by auto
      ultimately show ?thesis using lt c by (simp add: ko)
    qed
    have "downLoop S0 p n = (S0, p)"
    proof (rule downLoop_stop, cases "n \<le> 2 * p + 1")
      case nl: False
      define j where "j = pick_child S0 (2 * p + 1) n"
      from nl pick_child_range [of p n S0] have "(j = 2 * p + 1 \<or> j = 2 * p + 2) \<and> j < n"
        by (simp add: j_def)
      then have "0 < j" "j < n" "parent j = p"
        using parent_child [of j p] by auto
      from kids [OF this] have "\<not> Less S0 j p"
        using \<open>j < n\<close> pn kp by (simp add: Less_keys len0)
      then show "n \<le> 2 * p + 1 \<or> \<not> Less S0 (pick_child S0 (2 * p + 1) n) p"
        by (simp add: j_def)
    qed simp
    with dl have e: "S1 = S0" "q = p" by simp_all
    have "swim_inv (keys S0) p n"
      unfolding swim_inv_def
    proof (intro conjI allI impI)
      fix c assume c: "0 < c \<and> c < n \<and> c \<noteq> p"
      then have pc: "parent c < n" using parent_less [of c] by simp
      show "keys S0 ! parent c \<le> keys S0 ! c"
      proof (cases "parent c = p")
        case True
        with c kids [of c] kp show ?thesis by simp
      next
        case False
        with c pc old [of c] show ?thesis by (simp add: ko)
      qed
    next
      fix c assume c: "0 < c \<and> c < n \<and> parent c = p \<and> 0 < p"
      then have "c \<noteq> p" using parent_less [of c] by auto
      moreover from old [of c] old [of p] c pn have "keys S ! parent p \<le> keys S ! c" by auto
      ultimately show "keys S0 ! parent p \<le> keys S0 ! c" using c pp by (simp add: ko)
    qed
    with up_props [of p S0] pn len0 hf e show ?thesis by simp
  qed
  then obtain S' where r: "heap_Fix S0 (int p) = Some S'" and s: "same_items S0 S'"
    and o: "ordered (keys S') n" by blast
  from s len0 have "Len S' = n" by (simp add: same_items_def Len_def)
  with o have "heap_ok S'" by (simp add: heap_ok_def)
  moreover from s i0 have "idx_ok S'" by (simp add: same_items_def)
  moreover from s have "length (snd S') = length (snd S)" "mset (snd S') = mset (snd S)"
    by (simp_all add: same_items_def S0_def)
  moreover from s f0 have "\<forall>a. ip (fst S' a) = ip (fst S a) \<and>
      expiresAt (fst S' a) = (if a = item then t else expiresAt (fst S a))"
    by (simp add: same_items_def)
  ultimately show ?thesis using upd r by simp
qed



section \<open>The invariant of the in-memory registry\<close>

text \<open>
  \<open>recorder_ok r\<close>: the heap is in heap order and its items know their positions; each item in the
  heap is the one \<open>expiryItems\<close> holds for its address, it expires when the stored record of
  that address does, and it lies below \<open>nextRef\<close>; the two maps have the keys of the heap's
  items; and the registry holds at most \<open>capacity\<close> records, where capacity is positive.
\<close>

definition recorder_ok :: "MemoryIPRecorder \<Rightarrow> bool" where
  "recorder_ok r \<longleftrightarrow>
     heap_ok (hs r) \<and> idx_ok (hs r) \<and>
     (\<forall>a \<in> set (expiryHeap r).
        expiryItems r (ip (items r a)) = Some a \<and>
        map_option BlockedUntil (blockedIPs r (ip (items r a))) = Some (expiresAt (items r a)) \<and>
        a < nextRef r) \<and>
     dom (expiryItems r) = (\<lambda>a. ip (items r a)) ` set (expiryHeap r) \<and>
     dom (blockedIPs r) = dom (expiryItems r) \<and>
     int (length (expiryHeap r)) \<le> capacity r \<and> 1 \<le> capacity r"

lemma ok_New: "recorder_ok (NewMemoryIPRecorder n lg)"
  by (simp add: recorder_ok_def NewMemoryIPRecorder_def hs_def heap_ok_def idx_ok_def ordered_def Len_def)

lemma okD:
  assumes "recorder_ok r"
  shows "heap_ok (hs r)" "idx_ok (hs r)"
    "\<And>a. a \<in> set (expiryHeap r) \<Longrightarrow> expiryItems r (ip (items r a)) = Some a"
    "\<And>a. a \<in> set (expiryHeap r) \<Longrightarrow>
       map_option BlockedUntil (blockedIPs r (ip (items r a))) = Some (expiresAt (items r a))"
    "\<And>a. a \<in> set (expiryHeap r) \<Longrightarrow> a < nextRef r"
    "dom (expiryItems r) = (\<lambda>a. ip (items r a)) ` set (expiryHeap r)"
    "dom (blockedIPs r) = dom (expiryItems r)"
    "int (length (expiryHeap r)) \<le> capacity r" "1 \<le> capacity r"
  using assms unfolding recorder_ok_def by blast+

lemma ok_inj:
  assumes "recorder_ok r" "a \<in> set (expiryHeap r)" "b \<in> set (expiryHeap r)" "ip (items r a) = ip (items r b)"
  shows "a = b"
proof -
  have "Some a = expiryItems r (ip (items r a))"
    using okD(3) [OF assms(1,2)] by (rule sym)
  also have "\<dots> = expiryItems r (ip (items r b))"
    by (simp only: assms(4))
  also have "\<dots> = Some b"
    by (rule okD(3) [OF assms(1,3)])
  finally show ?thesis by (rule option.inject [THEN iffD1])
qed

lemma ok_distinct:
  assumes "recorder_ok r"
  shows "distinct (expiryHeap r)"
proof -
  have "idx_ok (items r, expiryHeap r)"
    using okD(2) [OF assms] by (simp only: hs_def)
  then show ?thesis
    by (simp add: idx_ok_def)
qed

lemma ok_len:
  assumes "recorder_ok r"
  shows "len_blockedIPs r = int (length (expiryHeap r))"
proof -
  have "inj_on (\<lambda>a. ip (items r a)) (set (expiryHeap r))"
    by (rule inj_onI) (rule ok_inj [OF assms])
  then have "card ((\<lambda>a. ip (items r a)) ` set (expiryHeap r)) = card (set (expiryHeap r))"
    by (rule card_image)
  also have "\<dots> = length (expiryHeap r)"
    using ok_distinct [OF assms] by (rule distinct_card)
  finally show ?thesis
    using okD(6,7) [OF assms] by (simp add: len_blockedIPs_def)
qed

text \<open>One pop followed by the deletion of the popped address from both maps.\<close>

lemma ok_pop_delete:
  assumes "recorder_ok r" "0 < length (expiryHeap r)"
  shows "\<exists>S'. heap_Pop (hs r) = Some (expiryHeap r ! 0, S') \<and>
           recorder_ok (delete_ip (set_hs r S') (ip (items r (expiryHeap r ! 0)))) \<and>
           mset (expiryHeap r) = add_mset (expiryHeap r ! 0) (mset (snd S')) \<and>
           ip (fst S' (expiryHeap r ! 0)) = ip (items r (expiryHeap r ! 0))"
proof -
  define a where "a = expiryHeap r ! 0"
  from assms(2) okD(1,2) [OF assms(1)] have "0 < Len (hs r)" "heap_ok (hs r)" "idx_ok (hs r)"
    by (simp_all add: hs_def Len_def)
  from heap_Pop_props [OF this] obtain S' where
    pop: "heap_Pop (hs r) = Some (a, S')" and ho: "heap_ok S'" and io: "idx_ok S'"
    and ms: "mset (expiryHeap r) = add_mset a (mset (snd S'))"
    and fl: "\<And>b. ip (fst S' b) = ip (items r b)" "\<And>b. expiresAt (fst S' b) = expiresAt (items r b)"
    by (auto simp: hs_def a_def)
  define k where "k = ip (items r a)"
  define r' where "r' = delete_ip (set_hs r S') k"
  from ms have st: "set (expiryHeap r) = insert a (set (snd S'))"
    by (metis set_mset_add_mset_insert set_mset_mset)
  from ms have ln: "length (expiryHeap r) = Suc (length (snd S'))"
    by (metis size_mset size_add_mset)
  have na: "a \<notin> set (snd S')"
  proof
    assume "a \<in> set (snd S')"
    then have "1 \<le> count (mset (snd S')) a" by (simp add: Suc_le_eq)
    with ms have "2 \<le> count (mset (expiryHeap r)) a" by simp
    moreover from ok_distinct [OF assms(1)] have "count (mset (expiryHeap r)) a \<le> 1"
      by (simp add: distinct_count_atmost_1)
    ultimately show False by simp
  qed
  have ne: "ip (items r b) \<noteq> k" if "b \<in> set (snd S')" for b
  proof
    assume "ip (items r b) = k"
    with ok_inj [OF assms(1), of b a] that st have "b = a" by (simp add: k_def)
    with na that show False by simp
  qed
  have hr': "hs r' = S'" "expiryHeap r' = snd S'" "items r' = fst S'"
    "expiryItems r' = (expiryItems r)(k := None)" "blockedIPs r' = (blockedIPs r)(k := None)"
    "nextRef r' = nextRef r" "capacity r' = capacity r"
    by (simp_all add: r'_def hs_def set_hs_def delete_ip_def)
  have "recorder_ok r'"
    unfolding recorder_ok_def hr'
  proof (intro conjI ballI)
    show "heap_ok S'" "idx_ok S'" by fact+
  next
    fix b assume b: "b \<in> set (snd S')"
    with st have bo: "b \<in> set (expiryHeap r)" by simp
    from ne [OF b] okD(3-5) [OF assms(1) bo]
    show "((expiryItems r)(k := None)) (ip (fst S' b)) = Some b"
      "map_option BlockedUntil (((blockedIPs r)(k := None)) (ip (fst S' b))) = Some (expiresAt (fst S' b))"
      "b < nextRef r"
      by (simp_all add: fl)
  next
    have "(\<lambda>b. ip (items r b)) ` set (snd S') = (\<lambda>b. ip (items r b)) ` set (expiryHeap r) - {k}"
      using st ne by (auto simp: k_def)
    then show "dom ((expiryItems r)(k := None)) = (\<lambda>b. ip (fst S' b)) ` set (snd S')"
      using okD(6) [OF assms(1)] by (simp add: fl)
  next
    show "dom ((blockedIPs r)(k := None)) = dom ((expiryItems r)(k := None))"
      using okD(7) [OF assms(1)] by simp
  next
    show "int (length (snd S')) \<le> capacity r" "1 \<le> capacity r"
      using okD(8,9) [OF assms(1)] ln by simp_all
  qed
  with pop ms fl(1) [of a] show ?thesis
    by (simp add: r'_def a_def k_def)
qed


lemma ok_cong:
  assumes "recorder_ok r" "hs r' = hs r" "expiryItems r' = expiryItems r" "blockedIPs r' = blockedIPs r"
    "nextRef r' = nextRef r" "capacity r' = capacity r"
  shows "recorder_ok r'"
proof -
  from assms(2) have "items r' = items r" "expiryHeap r' = expiryHeap r"
    by (simp_all add: hs_def)
  with assms show ?thesis
    unfolding recorder_ok_def by simp
qed

lemma hs_set_hs [simp]: "hs (set_hs r S) = S"
  by (simp add: hs_def set_hs_def)

lemma set_hs_hs [simp]: "set_hs r (hs r) = r"
  by (simp add: hs_def set_hs_def)

lemma set_hs_twice [simp]: "set_hs (set_hs r S) T = set_hs r T"
  by (simp add: set_hs_def)

lemma delete_ip_set_hs: "delete_ip (set_hs r S) k = set_hs (delete_ip r k) S"
  by (simp add: delete_ip_def set_hs_def)

lemma delete_all_set_hs: "delete_all (set_hs r S) ks = set_hs (delete_all r ks) S"
  by (induction ks arbitrary: r) (simp_all add: delete_ip_set_hs)

lemma delete_ip_toDelete: "delete_ip (r\<lparr>toDelete := d\<rparr>) k = (delete_ip r k)\<lparr>toDelete := d\<rparr>"
  by (simp add: delete_ip_def)

lemma delete_all_toDelete: "delete_all (r\<lparr>toDelete := d\<rparr>) ks = (delete_all r ks)\<lparr>toDelete := d\<rparr>"
  by (induction ks arbitrary: r) (simp_all add: delete_ip_toDelete)

text \<open>\<open>least_removed\<close>: a recorded removal took an item of the heap with the least expiry.\<close>

definition least_removed :: "removal \<Rightarrow> bool" where
  "least_removed x \<longleftrightarrow>
     fst x \<in> set (snd (snd x)) \<and>
     (\<forall>b \<in> set (snd (snd x)). expiresAt (fst (snd x) (fst x)) \<le> expiresAt (fst (snd x) b))"

lemma least_removed_root:
  assumes "heap_ok S" "0 < length (snd S)"
  shows "least_removed (snd S ! 0, S)"
  using assms heap_ok_root_least [OF assms(1)] by (simp add: least_removed_def)

lemma expiredLoop_ok:
  assumes "recorder_ok R" "hs R = S"
  shows "\<exists>S' del' tr'. expiredLoop S now len lim del tr = Some (S', del @ del', tr @ tr') \<and>
           recorder_ok (delete_all (set_hs R S') del') \<and> list_all least_removed tr' \<and>
           mset (snd S) = mset (map fst tr') + mset (snd S')"
  using assms
proof (induction S now len lim del tr arbitrary: R rule: expiredLoop.induct)
  case (1 S now len lim del tr)
  define a where "a = snd S ! 0"
  show ?case
  proof (cases "Len S > 0 \<and> len \<ge> lim")
    case False
    then have "expiredLoop S now len lim del tr = Some (S, del, tr)"
      by (subst expiredLoop.simps) auto
    with "1.prems"(1) "1.prems"(2) [symmetric] show ?thesis
      by (intro exI [of _ S] exI [of _ "[]"]) simp
  next
    case True
    then have pk: "Peek S = Some a"
      by (simp add: Peek_def a_def Len_def)
    show ?thesis
    proof (cases "After (expiresAt (fst S a)) now")
      case live: True
      with True pk have "expiredLoop S now len lim del tr = Some (S, del, tr)"
        by (subst expiredLoop.simps) simp
      with "1.prems"(1) "1.prems"(2) [symmetric] show ?thesis
        by (intro exI [of _ S] exI [of _ "[]"]) simp
    next
      case expired: False
      from True "1.prems" have ne: "0 < length (expiryHeap R)"
        by (simp add: hs_def Len_def) (metis length_greater_0_conv snd_conv)
      have aR: "a = expiryHeap R ! 0"
        using "1.prems" by (simp add: a_def hs_def) (metis snd_conv)
      from ok_pop_delete [OF "1.prems"(1) ne] obtain S1 where
        pop: "heap_Pop S = Some (a, S1)"
        and w1: "recorder_ok (delete_ip (set_hs R S1) (ip (items R a)))"
        and ipa: "ip (fst S1 a) = ip (items R a)"
        and ms1: "mset (snd S) = add_mset a (mset (snd S1))"
        using "1.prems"(2) aR by (auto simp: hs_def)
      define R1 where "R1 = delete_ip (set_hs R S1) (ip (items R a))"
      have h1: "hs R1 = S1"
        by (simp add: R1_def delete_ip_set_hs)
      from "1.IH" [OF True pk expired pop refl, of R1] w1 h1 obtain S' del' tr' where
        r: "expiredLoop S1 now len lim (del @ [ip (fst S1 a)]) (tr @ [(a, S)]) =
              Some (S', (del @ [ip (fst S1 a)]) @ del', (tr @ [(a, S)]) @ tr')"
        and w: "recorder_ok (delete_all (set_hs R1 S') del')" and l: "list_all least_removed tr'"
        and ms: "mset (snd S1) = mset (map fst tr') + mset (snd S')"
        by (auto simp: R1_def)
      have eq: "expiredLoop S now len lim del tr =
          expiredLoop S1 now len lim (del @ [ip (fst S1 a)]) (tr @ [(a, S)])"
        using True pk expired pop by (subst expiredLoop.simps) simp
      have "set_hs R1 S' = delete_ip (set_hs R S') (ip (items R a))"
        by (simp add: R1_def delete_ip_def set_hs_def)
      with w ipa have "recorder_ok (delete_all (set_hs R S') (ip (fst S1 a) # del'))"
        by simp
      moreover have "least_removed (a, S)"
        using least_removed_root [of S] okD(1) [OF "1.prems"(1)] "1.prems"(2) True
        by (simp add: a_def Len_def)
      ultimately show ?thesis
        using eq r l ms ms1
        by (intro exI [of _ S'] exI [of _ "ip (fst S1 a) # del'"] exI [of _ "(a, S) # tr'"]) simp
    qed
  qed
qed

lemma evictLoop_ok:
  assumes "recorder_ok r"
  shows "\<exists>r' tr'. evictLoop r tr = Some (r', tr @ tr') \<and> recorder_ok r' \<and> list_all least_removed tr' \<and>
           len_blockedIPs r' < capacity r' \<and> dom (expiryItems r') \<subseteq> dom (expiryItems r) \<and>
           mset (expiryHeap r) = mset (map fst tr') + mset (expiryHeap r')"
  using assms
proof (induction r tr rule: evictLoop.induct)
  case (1 r tr)
  show ?case
  proof (cases "len_blockedIPs r \<ge> capacity r \<and> Len (hs r) > 0")
    case False
    then have e: "evictLoop r tr = Some (r, tr)"
      by (subst evictLoop.simps) auto
    have "len_blockedIPs r < capacity r"
    proof (cases "Len (hs r) > 0")
      case True
      with False show ?thesis by simp
    next
      case empty: False
      then have "length (expiryHeap r) = 0" by (simp add: Len_def hs_def)
      with ok_len [OF "1.prems"] okD(9) [OF "1.prems"] show ?thesis by simp
    qed
    with e "1.prems" show ?thesis
      by (intro exI [of _ r] exI [of _ "[]"]) simp
  next
    case True
    define a where "a = expiryHeap r ! 0"
    from True have ne: "0 < length (expiryHeap r)" by (simp add: Len_def hs_def)
    from ok_pop_delete [OF "1.prems" ne] obtain S1 where
      pop: "heap_Pop (hs r) = Some (a, S1)"
      and w1: "recorder_ok (delete_ip (set_hs r S1) (ip (items r a)))"
      and ipa: "ip (fst S1 a) = ip (items r a)"
      and ms1: "mset (expiryHeap r) = add_mset a (mset (snd S1))"
      by (auto simp: a_def)
    define r1 where "r1 = delete_ip (set_hs r S1) (ip (fst S1 a))"
    define r2 where "r2 = r1\<lparr>logger := Msg (logger r1) Debug ''capacity reached, earliest expiring IP record removed''\<rparr>"
    have "recorder_ok r2"
      using w1 ipa by (rule_tac ok_cong [of r1]) (simp_all add: r1_def r2_def hs_def)
    from "1.IH" [OF True pop refl refl refl] this
    obtain r' tr' where
      r: "evictLoop r2 (tr @ [(a, hs r)]) = Some (r', (tr @ [(a, hs r)]) @ tr')"
      and w: "recorder_ok r'" and l: "list_all least_removed tr'" and c: "len_blockedIPs r' < capacity r'"
      and d: "dom (expiryItems r') \<subseteq> dom (expiryItems r2)"
      and ms: "mset (expiryHeap r2) = mset (map fst tr') + mset (expiryHeap r')"
      by (auto simp: r1_def r2_def)
    have h2: "expiryHeap r2 = snd S1"
      by (simp add: r2_def r1_def delete_ip_def set_hs_def)
    have d2: "dom (expiryItems r2) \<subseteq> dom (expiryItems r)"
      by (auto simp: r2_def r1_def delete_ip_def set_hs_def)
    have eq: "evictLoop r tr = evictLoop r2 (tr @ [(a, hs r)])"
      using True pop by (subst evictLoop.simps) (simp add: Let_def r1_def r2_def)
    have "least_removed (a, hs r)"
      using least_removed_root [of "hs r"] okD(1) [OF "1.prems"] ne
      by (simp add: a_def hs_def)
    with eq r w l c d d2 ms ms1 h2 show ?thesis
      by (intro exI [of _ r'] exI [of _ "(a, hs r) # tr'"]) auto
  qed
qed


lemma dom_delete_all: "dom (expiryItems (delete_all r ks)) \<subseteq> dom (expiryItems r)"
proof (induction ks arbitrary: r)
  case (Cons k ks)
  have "dom (expiryItems (delete_ip r k)) \<subseteq> dom (expiryItems r)"
    by (auto simp: delete_ip_def)
  with Cons [of "delete_ip r k"] show ?case by auto
qed simp

lemma nextRef_delete_all: "nextRef (delete_all r ks) = nextRef r"
  by (induction ks arbitrary: r) (simp_all add: delete_ip_def)

text \<open>
  \<open>ensureCapacity\<close> on a registry that satisfies the invariant does not panic, keeps the
  invariant, removes only items of least expiry, and leaves room for one more record.
\<close>

lemma ensureCapacity_ok:
  assumes "recorder_ok r"
  shows "\<exists>r' tr. ensureCapacity r now = Some (r', tr) \<and> recorder_ok r' \<and>
           list_all least_removed tr \<and> len_blockedIPs r' < capacity r' \<and>
           dom (expiryItems r') \<subseteq> dom (expiryItems r) \<and>
           mset (expiryHeap r) = mset (map fst tr) + mset (expiryHeap r')"
proof (cases "len_blockedIPs r < capacity r")
  case True
  with assms show ?thesis by (simp add: ensureCapacity_def)
next
  case False
  from expiredLoop_ok [OF assms refl, of now "len_blockedIPs r" "capacity r" "[]" "[]"]
  obtain S del tr1 where
    e: "expiredLoop (hs r) now (len_blockedIPs r) (capacity r) [] [] = Some (S, del, tr1)"
    and w: "recorder_ok (delete_all (set_hs r S) del)" and l1: "list_all least_removed tr1"
    and m1: "mset (expiryHeap r) = mset (map fst tr1) + mset (snd S)"
    by (auto simp: hs_def)
  define r1 where "r1 = delete_all ((set_hs r S)\<lparr>toDelete := del\<rparr>) del"
  have r1: "r1 = (delete_all (set_hs r S) del)\<lparr>toDelete := del\<rparr>"
    by (simp add: r1_def delete_all_toDelete)
  have w1: "recorder_ok r1"
    by (rule ok_cong [OF w]) (simp_all add: r1 hs_def)
  have "dom (expiryItems (delete_all (set_hs r S) del)) \<subseteq> dom (expiryItems (set_hs r S))"
    by (rule dom_delete_all)
  then have d1: "dom (expiryItems r1) \<subseteq> dom (expiryItems r)"
    by (simp add: r1 set_hs_def)
  from evictLoop_ok [OF w1, of tr1] obtain r' tr2 where
    v: "evictLoop r1 tr1 = Some (r', tr1 @ tr2)" and w': "recorder_ok r'"
    and l2: "list_all least_removed tr2" and c: "len_blockedIPs r' < capacity r'"
    and d2: "dom (expiryItems r') \<subseteq> dom (expiryItems r1)"
    and m2: "mset (expiryHeap r1) = mset (map fst tr2) + mset (expiryHeap r')"
    by auto
  have "hs (delete_all (set_hs r S) del) = S"
    by (simp add: delete_all_set_hs)
  then have "snd (hs (delete_all (set_hs r S) del)) = snd S"
    by (rule arg_cong)
  then have h1: "expiryHeap r1 = snd S"
    by (simp add: r1 hs_def)
  from False e v have "ensureCapacity r now = Some (r', tr1 @ tr2)"
    by (simp add: ensureCapacity_def r1_def)
  with w' l1 l2 c d1 d2 m1 m2 h1 show ?thesis by auto
qed

text \<open>\<open>RecordBlockedIP\<close> keeps the invariant, on both of its paths.\<close>

lemma RecordBlockedIP_update:
  assumes "recorder_ok r" "expiryItems r k = Some item"
  shows "\<exists>S'. RecordBlockedIP r k reason d now now' =
             Some ((set_hs (r\<lparr>blockedIPs := (blockedIPs r)
                      (k \<mapsto> \<lparr>IP = k, Reason = reason, BlockedAt = now, BlockedUntil = Add now d\<rparr>)\<rparr>) S')
                   \<lparr>logger := logger r @ [(Info, ''IP block record updated'')]\<rparr>) \<and>
           heap_ok S' \<and> idx_ok S' \<and> length (snd S') = length (expiryHeap r) \<and>
           mset (snd S') = mset (expiryHeap r) \<and>
           (\<forall>a. ip (fst S' a) = ip (items r a) \<and>
                expiresAt (fst S' a) = (if a = item then Add now d else expiresAt (items r a)))"
proof -
  define rec where "rec = \<lparr>IP = k, Reason = reason, BlockedAt = now, BlockedUntil = Add now d\<rparr>"
  define r0 where "r0 = r\<lparr>blockedIPs := (blockedIPs r)(k \<mapsto> rec)\<rparr>"
  from assms have "k \<in> (\<lambda>a. ip (items r a)) ` set (expiryHeap r)"
    using okD(6) [OF assms(1)] by auto
  then obtain b where b: "b \<in> set (expiryHeap r)" "k = ip (items r b)" by auto
  with okD(3) [OF assms(1), of b] assms(2) have "b = item" by simp
  with b obtain p where p: "p < length (expiryHeap r)" "expiryHeap r ! p = item"
    by (auto simp: in_set_conv_nth)
  have h0: "hs (r\<lparr>blockedIPs := (blockedIPs r)(k \<mapsto> rec)\<rparr>) = hs r" by (simp add: hs_def)
  from p have "p < Len (hs r)" "item = snd (hs r) ! p"
    by (simp_all add: hs_def Len_def)
  from Update_props [OF okD(1,2) [OF assms(1)] this, of "Add now d"] obtain S' where
    u: "Update (hs r) item (Add now d) = Some S'" and ho: "heap_ok S'" and io: "idx_ok S'"
    and ln: "length (snd S') = length (expiryHeap r)" and ms: "mset (snd S') = mset (expiryHeap r)"
    and fl: "\<forall>a. ip (fst S' a) = ip (items r a) \<and>
                expiresAt (fst S' a) = (if a = item then Add now d else expiresAt (items r a))"
    by (auto simp: hs_def)
  have "RecordBlockedIP r k reason d now now' =
      Some ((set_hs r0 S')\<lparr>logger := logger r @ [(Info, ''IP block record updated'')]\<rparr>)"
    using assms(2) u h0 [unfolded rec_def]
    by (simp add: RecordBlockedIP_def Let_def rec_def r0_def Msg_def set_hs_def)
  with ho io ln ms fl show ?thesis
    unfolding r0_def rec_def by (intro exI [of _ S']) simp
qed


lemma expiredLoop_none_expired:
  assumes "0 < Len S" "After (expiresAt (fst S (snd S ! 0))) now"
  shows "expiredLoop S now len lim del tr = Some (S, del, tr)"
  using assms by (subst expiredLoop.simps) (auto simp: Peek_def Len_def)

text \<open>
  A full registry with no expired item: \<open>ensureCapacity\<close> removes exactly one item, the
  root of the heap.
\<close>

lemma ensureCapacity_forced:
  assumes "recorder_ok r" "capacity r \<le> len_blockedIPs r"
      and "\<forall>a \<in> set (expiryHeap r). After (expiresAt (items r a)) now"
  shows "\<exists>r'. ensureCapacity r now = Some (r', [(expiryHeap r ! 0, hs r)])"
proof -
  define a where "a = expiryHeap r ! 0"
  from assms(2) ok_len [OF assms(1)] okD(8,9) [OF assms(1)]
  have full: "int (length (expiryHeap r)) = capacity r" and ne: "0 < length (expiryHeap r)"
    by auto
  from ne have ain: "a \<in> set (expiryHeap r)" by (simp add: a_def)
  with assms(3) have "After (expiresAt (fst (hs r) (snd (hs r) ! 0))) now"
    by (simp add: hs_def a_def)
  moreover from ne have "0 < Len (hs r)" by (simp add: hs_def Len_def)
  ultimately have e: "expiredLoop (hs r) now (len_blockedIPs r) (capacity r) [] [] = Some (hs r, [], [])"
    by (rule expiredLoop_none_expired [rotated])
  define r1 where "r1 = r\<lparr>toDelete := []\<rparr>"
  have w1: "recorder_ok r1"
    by (rule ok_cong [OF assms(1)]) (simp_all add: r1_def hs_def)
  have h1: "hs r1 = hs r" "expiryHeap r1 = expiryHeap r" "items r1 = items r"
    "len_blockedIPs r1 = len_blockedIPs r" "capacity r1 = capacity r"
    by (simp_all add: r1_def hs_def len_blockedIPs_def)
  from ok_pop_delete [OF w1] ne h1 obtain S1 where
    pop: "heap_Pop (hs r) = Some (a, S1)"
    and w2: "recorder_ok (delete_ip (set_hs r1 S1) (ip (items r a)))"
    and ms: "mset (expiryHeap r) = add_mset a (mset (snd S1))"
    and ipa: "ip (fst S1 a) = ip (items r a)"
    by (auto simp: a_def)
  define r2 where "r2 = delete_ip (set_hs r1 S1) (ip (fst S1 a))"
  define r3 where "r3 = r2\<lparr>logger := Msg (logger r2) Debug ''capacity reached, earliest expiring IP record removed''\<rparr>"
  have w3: "recorder_ok r3"
    using w2 ipa by (rule_tac ok_cong [of r2]) (simp_all add: r2_def r3_def hs_def)
  have "expiryHeap r3 = snd S1" "capacity r3 = capacity r"
    by (simp_all add: r3_def r2_def r1_def delete_ip_def set_hs_def)
  moreover from ms have "length (expiryHeap r) = Suc (length (snd S1))"
    by (metis size_mset size_add_mset)
  ultimately have "len_blockedIPs r3 < capacity r3"
    using ok_len [OF w3] full by simp
  then have stop: "evictLoop r3 [(a, hs r)] = Some (r3, [(a, hs r)])"
    by (subst evictLoop.simps) auto
  have "evictLoop r1 [] = evictLoop r3 [(a, hs r)]"
    using assms(2) ne pop h1
    by (subst evictLoop.simps) (simp add: Let_def r2_def r3_def Len_def hs_def)
  with stop e assms(2) show ?thesis
    by (simp add: ensureCapacity_def r1_def a_def set_hs_def hs_def)
qed

lemma RecordBlockedIP_update_ok:
  assumes "recorder_ok r" "expiryItems r k = Some item"
  shows "\<exists>r'. RecordBlockedIP r k reason d now now' = Some r' \<and> recorder_ok r'"
proof -
  define rec where "rec = \<lparr>IP = k, Reason = reason, BlockedAt = now, BlockedUntil = Add now d\<rparr>"
  from RecordBlockedIP_update [OF assms, of reason d now now'] obtain S' where
    e: "RecordBlockedIP r k reason d now now' =
          Some ((set_hs (r\<lparr>blockedIPs := (blockedIPs r)(k \<mapsto> rec)\<rparr>) S')
                \<lparr>logger := logger r @ [(Info, ''IP block record updated'')]\<rparr>)"
    and ho: "heap_ok S'" and io: "idx_ok S'" and ln: "length (snd S') = length (expiryHeap r)"
    and ms: "mset (snd S') = mset (expiryHeap r)"
    and fl: "\<And>a. ip (fst S' a) = ip (items r a)"
      "\<And>a. expiresAt (fst S' a) = (if a = item then Add now d else expiresAt (items r a))"
    unfolding rec_def by blast
  define r' where "r' = (set_hs (r\<lparr>blockedIPs := (blockedIPs r)(k \<mapsto> rec)\<rparr>) S')
                \<lparr>logger := logger r @ [(Info, ''IP block record updated'')]\<rparr>"
  have f: "hs r' = S'" "expiryHeap r' = snd S'" "items r' = fst S'"
    "expiryItems r' = expiryItems r" "blockedIPs r' = (blockedIPs r)(k \<mapsto> rec)"
    "nextRef r' = nextRef r" "capacity r' = capacity r"
    by (simp_all add: r'_def hs_def set_hs_def)
  from ms have st: "set (snd S') = set (expiryHeap r)" by (rule mset_eq_setD)
  from assms(2) okD(6) [OF assms(1)] obtain b where
    b: "b \<in> set (expiryHeap r)" "k = ip (items r b)" by auto
  with okD(3) [OF assms(1), of b] assms(2) have bi: "b = item" by simp
  have kd: "k \<in> dom (blockedIPs r)"
    using assms(2) okD(7) [OF assms(1)] by auto
  have "recorder_ok r'"
    unfolding recorder_ok_def f
  proof (intro conjI ballI)
    show "heap_ok S'" "idx_ok S'" by fact+
  next
    fix a assume "a \<in> set (snd S')"
    with st have a: "a \<in> set (expiryHeap r)" by simp
    show "expiryItems r (ip (fst S' a)) = Some a"
      using okD(3) [OF assms(1) a] by (simp add: fl)
    show "a < nextRef r" by (rule okD(5) [OF assms(1) a])
    show "map_option BlockedUntil (((blockedIPs r)(k \<mapsto> rec)) (ip (fst S' a))) = Some (expiresAt (fst S' a))"
    proof (cases "a = item")
      case True
      with b bi show ?thesis by (simp add: fl rec_def)
    next
      case False
      with ok_inj [OF assms(1) a b(1)] bi b(2) have "ip (items r a) \<noteq> k" by auto
      with False okD(4) [OF assms(1) a] show ?thesis by (simp add: fl)
    qed
  next
    show "dom (expiryItems r) = (\<lambda>a. ip (fst S' a)) ` set (snd S')"
      using okD(6) [OF assms(1)] by (simp add: fl st)
  next
    show "dom ((blockedIPs r)(k \<mapsto> rec)) = dom (expiryItems r)"
      using kd okD(7) [OF assms(1)] by auto
  next
    show "int (length (snd S')) \<le> capacity r" "1 \<le> capacity r"
      using okD(8,9) [OF assms(1)] ln by simp_all
  qed
  with e show ?thesis by (simp add: r'_def)
qed

lemma RecordBlockedIP_new_ok:
  assumes "recorder_ok r" "expiryItems r k = None"
  shows "\<exists>r'. RecordBlockedIP r k reason d now now' = Some r' \<and> recorder_ok r'"
proof -
  define rec where "rec = \<lparr>IP = k, Reason = reason, BlockedAt = now, BlockedUntil = Add now d\<rparr>"
  from ensureCapacity_ok [OF assms(1), of now'] obtain r1 tr where
    e: "ensureCapacity r now' = Some (r1, tr)" and w1: "recorder_ok r1"
    and c1: "len_blockedIPs r1 < capacity r1"
    and d1: "dom (expiryItems r1) \<subseteq> dom (expiryItems r)"
    by blast
  define item where "item = nextRef r1"
  define new where "new = \<lparr>ip = k, expiresAt = Add now d, index = 0\<rparr>"
  define r2 where "r2 = r1\<lparr>blockedIPs := (blockedIPs r1)(k \<mapsto> rec),
      items := (items r1)(item := new), nextRef := Suc item,
      expiryItems := (expiryItems r1)(k \<mapsto> item)\<rparr>"
  define S2 where "S2 = hs r2"
  define S3 where "S3 = heap_Push S2 item"
  define r3 where "r3 = (set_hs r2 S3)\<lparr>logger := Msg (logger (set_hs r2 S3)) Info ''IP blocked''\<rparr>"
  have res: "RecordBlockedIP r k reason d now now' = Some r3"
    using assms(2) e
    by (simp add: RecordBlockedIP_def Let_def rec_def r2_def item_def new_def S2_def S3_def r3_def)
  from assms(2) d1 have k1: "k \<notin> dom (expiryItems r1)" by auto
  have fresh: "item \<notin> set (expiryHeap r1)"
    using okD(5) [OF w1, of item] by (auto simp: item_def)
  have s2: "S2 = ((items r1)(item := new), expiryHeap r1)"
    by (simp add: S2_def r2_def hs_def)
  have old: "fst S2 a = items r1 a" if "a \<in> set (expiryHeap r1)" for a
    using that fresh by (auto simp: s2)
  have "keys S2 = keys (hs r1)"
    using old by (simp add: keys_def s2 hs_def)
  with okD(1) [OF w1] have ho2: "heap_ok S2"
    by (simp add: heap_ok_def Len_def s2 hs_def)
  have io2: "idx_ok S2"
    using okD(2) [OF w1] old by (simp add: idx_ok_def s2 hs_def)
  from heap_Push_props [OF ho2 io2, of item] fresh have
    ho: "heap_ok S3" and io: "idx_ok S3"
    and ms: "mset (snd S3) = add_mset item (mset (expiryHeap r1))"
    and fl: "\<And>a. ip (fst S3 a) = ip (fst S2 a)" "\<And>a. expiresAt (fst S3 a) = expiresAt (fst S2 a)"
    by (simp_all add: S3_def s2)
  from ms have st: "set (snd S3) = insert item (set (expiryHeap r1))"
    by (metis set_mset_add_mset_insert set_mset_mset)
  from ms have ln: "length (snd S3) = Suc (length (expiryHeap r1))"
    by (metis size_mset size_add_mset)
  have f: "hs r3 = S3" "expiryHeap r3 = snd S3" "items r3 = fst S3"
    "expiryItems r3 = (expiryItems r1)(k \<mapsto> item)" "blockedIPs r3 = (blockedIPs r1)(k \<mapsto> rec)"
    "nextRef r3 = Suc item" "capacity r3 = capacity r1"
    by (simp_all add: r3_def r2_def hs_def set_hs_def)
  have ipo: "ip (fst S3 a) = ip (items r1 a) \<and> expiresAt (fst S3 a) = expiresAt (items r1 a) \<and>
      ip (items r1 a) \<noteq> k" if a: "a \<in> set (expiryHeap r1)" for a
  proof -
    from okD(3) [OF w1 a] have "ip (items r1 a) \<in> dom (expiryItems r1)" by auto
    with k1 have "ip (items r1 a) \<noteq> k" by auto
    with old [OF a] show ?thesis by (simp add: fl)
  qed
  have ipn: "ip (fst S3 item) = k" "expiresAt (fst S3 item) = Add now d"
    by (simp_all add: fl s2 new_def)
  have "recorder_ok r3"
    unfolding recorder_ok_def f
  proof (intro conjI ballI)
    show "heap_ok S3" "idx_ok S3" by fact+
  next
    fix a assume "a \<in> set (snd S3)"
    with st have a: "a = item \<or> a \<in> set (expiryHeap r1)" by auto
    show "((expiryItems r1)(k \<mapsto> item)) (ip (fst S3 a)) = Some a"
      using a ipn ipo okD(3) [OF w1, of a] by auto
    show "map_option BlockedUntil (((blockedIPs r1)(k \<mapsto> rec)) (ip (fst S3 a))) = Some (expiresAt (fst S3 a))"
      using a ipn ipo okD(4) [OF w1, of a] by (auto simp: rec_def)
    show "a < Suc item"
      using a okD(5) [OF w1, of a] by (auto simp: item_def)
  next
    have "(\<lambda>a. ip (fst S3 a)) ` set (expiryHeap r1) = (\<lambda>a. ip (items r1 a)) ` set (expiryHeap r1)"
      using ipo by (intro image_cong) simp_all
    with okD(6) [OF w1] ipn show "dom ((expiryItems r1)(k \<mapsto> item)) = (\<lambda>a. ip (fst S3 a)) ` set (snd S3)"
      by (simp add: st)
  next
    show "dom ((blockedIPs r1)(k \<mapsto> rec)) = dom ((expiryItems r1)(k \<mapsto> item))"
      using okD(7) [OF w1] by simp
  next
    show "int (length (snd S3)) \<le> capacity r1" "1 \<le> capacity r1"
      using c1 ok_len [OF w1] okD(9) [OF w1] ln by simp_all
  qed
  with res show ?thesis by simp
qed

lemma RecordBlockedIP_ok:
  assumes "recorder_ok r"
  shows "\<exists>r'. RecordBlockedIP r k reason d now now' = Some r' \<and> recorder_ok r'"
  using RecordBlockedIP_update_ok [OF assms] RecordBlockedIP_new_ok [OF assms]
  by (cases "expiryItems r k") blast+



subsection \<open>What \<open>ensureCapacity\<close> removes, and from where\<close>

lemma delete_all_maps:
  "blockedIPs (delete_all r ks) = blockedIPs r |` (- set ks)"
  "expiryItems (delete_all r ks) = expiryItems r |` (- set ks)"
proof (induction ks arbitrary: r)
  case Nil
  {
    case 1 show ?case by simp
  next
    case 2 show ?case by simp
  }
next
  case (Cons k ks)
  {
    case 1
    show ?case
      by (simp add: Cons.IH(1)) (auto simp: delete_ip_def restrict_map_def)
  next
    case 2
    show ?case
      by (simp add: Cons.IH(2)) (auto simp: delete_ip_def restrict_map_def)
  }
qed

lemma delete_all_frame:
  "capacity (delete_all r ks) = capacity r" "hs (delete_all r ks) = hs r"
  "logger (delete_all r ks) = logger r"
  by (induction ks arbitrary: r) (simp_all add: delete_ip_def hs_def)

text \<open>
  The first loop on a full registry: it pops items that have expired, records their
  addresses in \<open>toDelete\<close> in the same order, and stops with no expired item left in the
  heap.
\<close>

lemma expiredLoop_expired:
  assumes "recorder_ok R" "hs R = S" "lim \<le> len"
  shows "\<exists>S' tr'. expiredLoop S now len lim del tr =
             Some (S', del @ map (\<lambda>x. ip (fst S (fst x))) tr', tr @ tr') \<and>
           (\<forall>x \<in> set tr'. \<not> After (expiresAt (fst S (fst x))) now) \<and>
           (\<forall>b \<in> set (snd S'). After (expiresAt (fst S b)) now) \<and>
           (\<forall>b. ip (fst S' b) = ip (fst S b))"
  using assms
proof (induction S now len lim del tr arbitrary: R rule: expiredLoop.induct)
  case (1 S now len lim del tr)
  define a where "a = snd S ! 0"
  have ho: "heap_ok S"
    using okD(1) [OF "1.prems"(1)] "1.prems"(2) by simp
  have io: "idx_ok S"
    using okD(2) [OF "1.prems"(1)] "1.prems"(2) by simp
  show ?case
  proof (cases "Len S > 0")
    case False
    then have "expiredLoop S now len lim del tr = Some (S, del, tr)"
      by (subst expiredLoop.simps) auto
    with False show ?thesis
      by (intro exI [of _ S] exI [of _ "[]"]) (simp add: Len_def)
  next
    case True
    with "1.prems"(3) have c: "Len S > 0 \<and> len \<ge> lim" by simp
    from True have pk: "Peek S = Some a"
      by (simp add: Peek_def a_def Len_def)
    show ?thesis
    proof (cases "After (expiresAt (fst S a)) now")
      case live: True
      with c pk have "expiredLoop S now len lim del tr = Some (S, del, tr)"
        by (subst expiredLoop.simps) simp
      moreover have "After (expiresAt (fst S b)) now" if "b \<in> set (snd S)" for b
        using heap_ok_root_least [OF ho that] live by (simp add: After_def a_def)
      ultimately show ?thesis
        by (intro exI [of _ S] exI [of _ "[]"]) simp
    next
      case expired: False
      from True "1.prems" have ne: "0 < length (expiryHeap R)"
        by (simp add: hs_def Len_def) (metis length_greater_0_conv snd_conv)
      have aR: "a = expiryHeap R ! 0"
        using "1.prems" by (simp add: a_def hs_def) (metis snd_conv)
      from ok_pop_delete [OF "1.prems"(1) ne] obtain S1 where
        pop: "heap_Pop S = Some (a, S1)"
        and w1: "recorder_ok (delete_ip (set_hs R S1) (ip (items R a)))"
        using "1.prems"(2) aR by (auto simp: hs_def)
      from heap_Pop_props [OF True ho io] pop
      have fl: "ip (fst S1 b) = ip (fst S b)" "expiresAt (fst S1 b) = expiresAt (fst S b)" for b
        by auto
      define R1 where "R1 = delete_ip (set_hs R S1) (ip (items R a))"
      have h1: "hs R1 = S1"
        by (simp add: R1_def delete_ip_set_hs)
      from "1.IH" [OF c pk expired pop refl, of R1] w1 h1 "1.prems"(3) obtain S' tr' where
        r: "expiredLoop S1 now len lim (del @ [ip (fst S1 a)]) (tr @ [(a, S)]) =
              Some (S', (del @ [ip (fst S1 a)]) @ map (\<lambda>x. ip (fst S1 (fst x))) tr', (tr @ [(a, S)]) @ tr')"
        and x: "\<forall>x \<in> set tr'. \<not> After (expiresAt (fst S1 (fst x))) now"
        and l: "\<forall>b \<in> set (snd S'). After (expiresAt (fst S1 b)) now"
        and i: "\<forall>b. ip (fst S' b) = ip (fst S1 b)"
        by (auto simp: R1_def)
      have eq: "expiredLoop S now len lim del tr =
          expiredLoop S1 now len lim (del @ [ip (fst S1 a)]) (tr @ [(a, S)])"
        using c pk expired pop by (subst expiredLoop.simps) simp
      show ?thesis
        using eq r x l i expired
        by (intro exI [of _ S'] exI [of _ "(a, S) # tr'"]) (simp add: fl)
    qed
  qed
qed

text \<open>The second loop deletes from both maps the addresses of the items it pops.\<close>

lemma evictLoop_maps:
  assumes "recorder_ok r"
  shows "\<exists>r' tr'. evictLoop r tr = Some (r', tr @ tr') \<and>
           blockedIPs r' = blockedIPs r |` (- (\<lambda>x. ip (items r (fst x))) ` set tr') \<and>
           expiryItems r' = expiryItems r |` (- (\<lambda>x. ip (items r (fst x))) ` set tr') \<and>
           capacity r' = capacity r"
  using assms
proof (induction r tr rule: evictLoop.induct)
  case (1 r tr)
  show ?case
  proof (cases "len_blockedIPs r \<ge> capacity r \<and> Len (hs r) > 0")
    case False
    then have "evictLoop r tr = Some (r, tr)"
      by (subst evictLoop.simps) auto
    then show ?thesis
      by (intro exI [of _ r] exI [of _ "[]"]) simp
  next
    case True
    define a where "a = expiryHeap r ! 0"
    from True have ne: "0 < length (expiryHeap r)" by (simp add: Len_def hs_def)
    from ok_pop_delete [OF "1.prems" ne] obtain S1 where
      pop: "heap_Pop (hs r) = Some (a, S1)"
      and w1: "recorder_ok (delete_ip (set_hs r S1) (ip (items r a)))"
      and ipa: "ip (fst S1 a) = ip (items r a)"
      by (auto simp: a_def)
    from ne have "0 < Len (hs r)" by (simp add: Len_def hs_def)
    from heap_Pop_props [OF this okD(1,2) [OF "1.prems"]] pop
    have fl: "ip (fst S1 b) = ip (items r b)" for b
      by (auto simp: hs_def)
    define r1 where "r1 = delete_ip (set_hs r S1) (ip (fst S1 a))"
    define r2 where "r2 = r1\<lparr>logger := Msg (logger r1) Debug ''capacity reached, earliest expiring IP record removed''\<rparr>"
    have "recorder_ok r2"
      using w1 ipa by (rule_tac ok_cong [of r1]) (simp_all add: r1_def r2_def hs_def)
    from "1.IH" [OF True pop refl refl refl] this
    obtain r' tr' where
      r: "evictLoop r2 (tr @ [(a, hs r)]) = Some (r', (tr @ [(a, hs r)]) @ tr')"
      and b: "blockedIPs r' = blockedIPs r2 |` (- (\<lambda>x. ip (items r2 (fst x))) ` set tr')"
      and x: "expiryItems r' = expiryItems r2 |` (- (\<lambda>x. ip (items r2 (fst x))) ` set tr')"
      and c: "capacity r' = capacity r2"
      by (auto simp: r1_def r2_def)
    have f2: "items r2 = fst S1" "capacity r2 = capacity r"
      "blockedIPs r2 = (blockedIPs r)(ip (items r a) := None)"
      "expiryItems r2 = (expiryItems r)(ip (items r a) := None)"
      by (simp_all add: r2_def r1_def delete_ip_def set_hs_def ipa)
    have eq: "evictLoop r tr = evictLoop r2 (tr @ [(a, hs r)])"
      using True pop by (subst evictLoop.simps) (simp add: Let_def r1_def r2_def)
    have "blockedIPs r' = blockedIPs r |` (- (\<lambda>x. ip (items r (fst x))) ` set ((a, hs r) # tr'))"
      unfolding b f2 by (rule ext) (auto simp: restrict_map_def fl)
    moreover
    have "expiryItems r' = expiryItems r |` (- (\<lambda>x. ip (items r (fst x))) ` set ((a, hs r) # tr'))"
      unfolding x f2 by (rule ext) (auto simp: restrict_map_def fl)
    ultimately show ?thesis
      using eq r c f2(2)
      by (intro exI [of _ r'] exI [of _ "(a, hs r) # tr'"]) simp
  qed
qed


text \<open>
  The whole of \<open>ensureCapacity\<close>: both maps lose exactly the addresses of the popped items;
  below capacity nothing happens; and on a full registry that holds expired items, the
  items popped are the expired ones, all of them, and no other.
\<close>

lemma ensureCapacity_effect:
  assumes "recorder_ok r"
  shows "\<exists>r' tr. ensureCapacity r now = Some (r', tr) \<and>
           blockedIPs r' = blockedIPs r |` (- (\<lambda>x. ip (items r (fst x))) ` set tr) \<and>
           expiryItems r' = expiryItems r |` (- (\<lambda>x. ip (items r (fst x))) ` set tr) \<and>
           capacity r' = capacity r \<and>
           (len_blockedIPs r < capacity r \<longrightarrow> r' = r \<and> tr = []) \<and>
           (capacity r \<le> len_blockedIPs r \<and>
            (\<exists>a \<in> set (expiryHeap r). \<not> After (expiresAt (items r a)) now) \<longrightarrow>
              fst ` set tr = {a \<in> set (expiryHeap r). \<not> After (expiresAt (items r a)) now})"
proof (cases "len_blockedIPs r < capacity r")
  case True
  then show ?thesis by (simp add: ensureCapacity_def restrict_map_def)
next
  case False
  then have full: "capacity r \<le> len_blockedIPs r" by simp
  from expiredLoop_expired [OF assms refl full, of now "[]" "[]"]
  obtain S tr1 where
    e: "expiredLoop (hs r) now (len_blockedIPs r) (capacity r) [] [] =
          Some (S, map (\<lambda>x. ip (items r (fst x))) tr1, tr1)"
    and x1: "\<forall>x \<in> set tr1. \<not> After (expiresAt (items r (fst x))) now"
    and l1: "\<forall>b \<in> set (snd S). After (expiresAt (items r b)) now"
    and i1: "\<forall>b. ip (fst S b) = ip (items r b)"
    by (auto simp: hs_def)
  define del where "del = map (\<lambda>x. ip (items r (fst x))) tr1"
  from expiredLoop_ok [OF assms refl, of now "len_blockedIPs r" "capacity r" "[]" "[]"] e
  have w: "recorder_ok (delete_all (set_hs r S) del)"
    and m1: "mset (expiryHeap r) = mset (map fst tr1) + mset (snd S)"
    by (auto simp: hs_def del_def)
  define r1 where "r1 = delete_all ((set_hs r S)\<lparr>toDelete := del\<rparr>) del"
  have r1: "r1 = (delete_all (set_hs r S) del)\<lparr>toDelete := del\<rparr>"
    by (simp add: r1_def delete_all_toDelete)
  have w1: "recorder_ok r1"
    by (rule ok_cong [OF w]) (simp_all add: r1 hs_def)
  have "hs (delete_all (set_hs r S) del) = S"
    by (simp add: delete_all_frame)
  then have "hs r1 = S"
    by (simp add: r1 hs_def)
  then have h1: "expiryHeap r1 = snd S" "items r1 = fst S"
    by (auto simp: hs_def)
  have f1: "blockedIPs r1 = blockedIPs r |` (- set del)"
    "expiryItems r1 = expiryItems r |` (- set del)" "capacity r1 = capacity r"
    by (simp_all add: r1 delete_all_maps delete_all_frame set_hs_def)
  from evictLoop_maps [OF w1, of tr1] obtain r' tr2 where
    v: "evictLoop r1 tr1 = Some (r', tr1 @ tr2)"
    and b2: "blockedIPs r' = blockedIPs r1 |` (- (\<lambda>x. ip (items r1 (fst x))) ` set tr2)"
    and x2: "expiryItems r' = expiryItems r1 |` (- (\<lambda>x. ip (items r1 (fst x))) ` set tr2)"
    and c2: "capacity r' = capacity r1"
    by auto
  have ec: "ensureCapacity r now = Some (r', tr1 @ tr2)"
    using False e v by (simp add: ensureCapacity_def r1_def del_def)
  have i2: "(\<lambda>x. ip (items r1 (fst x))) = (\<lambda>x. ip (items r (fst x)))"
    by (rule ext) (simp add: h1 i1)
  have "blockedIPs r' = blockedIPs r |` (- (\<lambda>x. ip (items r (fst x))) ` set (tr1 @ tr2))"
    unfolding b2 f1 i2 by (rule ext) (auto simp: restrict_map_def del_def)
  moreover
  have "expiryItems r' = expiryItems r |` (- (\<lambda>x. ip (items r (fst x))) ` set (tr1 @ tr2))"
    unfolding x2 f1 i2 by (rule ext) (auto simp: restrict_map_def del_def)
  moreover
  have "fst ` set (tr1 @ tr2) = {a \<in> set (expiryHeap r). \<not> After (expiresAt (items r a)) now}"
    if ex: "\<exists>a \<in> set (expiryHeap r). \<not> After (expiresAt (items r a)) now"
  proof -
    from m1 have st: "set (expiryHeap r) = fst ` set tr1 \<union> set (snd S)"
      by (metis set_map set_mset_mset set_mset_union)
    from m1 have ln: "length (expiryHeap r) = length tr1 + length (snd S)"
      by (metis length_map size_mset size_union)
    from ex st l1 have "tr1 \<noteq> []" by auto
    with ln have "length (snd S) < length (expiryHeap r)" by simp
    with ok_len [OF w1] okD(8) [OF assms] have "len_blockedIPs r1 < capacity r1"
      by (simp add: h1 f1)
    then have "evictLoop r1 tr1 = Some (r1, tr1)"
      by (subst evictLoop.simps) auto
    with v have "tr2 = []" by simp
    moreover have "fst ` set tr1 = {a \<in> set (expiryHeap r). \<not> After (expiresAt (items r a)) now}"
      using st x1 l1 by auto
    ultimately show ?thesis by simp
  qed
  ultimately show ?thesis
    using ec c2 f1(3) False by auto
qed


section \<open>Properties of the ban registry\<close>

definition example_record :: BlockedIPRecord where
  "example_record = \<lparr>IP = ''203.0.113.7'', Reason = ''bruteforce'', BlockedAt = 100, BlockedUntil = 160\<rparr>"

definition no_item :: IPExpiryItem where
  "no_item = \<lparr>ip = [], expiresAt = 0, index = 0\<rparr>"

definition example_blocked :: MemoryIPRecorder where
  "example_blocked =
     \<lparr>blockedIPs = [''203.0.113.7'' \<mapsto> example_record], expiryItems = [''203.0.113.7'' \<mapsto> 0],
      expiryHeap = [0],
      items = (\<lambda>_. no_item)(0 := \<lparr>ip = ''203.0.113.7'', expiresAt = 160, index = 0\<rparr>),
      nextRef = 1, capacity = 2, logger = [], toDelete = []\<rparr>"

definition example_rebanned :: MemoryIPRecorder where
  "example_rebanned =
     \<lparr>blockedIPs = [''203.0.113.7'' \<mapsto>
        \<lparr>IP = ''203.0.113.7'', Reason = ''scan'', BlockedAt = 200, BlockedUntil = 260\<rparr>],
      expiryItems = [''203.0.113.7'' \<mapsto> 0], expiryHeap = [0],
      items = (\<lambda>_. no_item)(0 := \<lparr>ip = ''203.0.113.7'', expiresAt = 260, index = 0\<rparr>),
      nextRef = 1, capacity = 2, logger = [(Info, ''IP block record updated'')], toDelete = []\<rparr>"

lemma example_reban:
  "RecordBlockedIP example_blocked ''203.0.113.7'' ''scan'' 60 200 200 = Some example_rebanned"
  by (simp add: RecordBlockedIP_def example_blocked_def example_rebanned_def Update_def
      heap_Fix_def hs_def Len_def down_def downLoop.simps up.simps set_hs_def Add_def Msg_def
      Let_def)

text \<open>
  C6. For an address with a stored ban record, \<open>IsIPBlocked\<close> answers true with the stored
  record (its reason and expiry) as long as the clock has not passed the stored expiry and
  that expiry is not the zero time; it answers false with no record once the clock has
  passed the expiry, and also when the stored expiry is the zero time. The record is still
  in the map in all three cases: the check reads the recorder and changes nothing.
\<close>

theorem IsIPBlocked_until_expiry:
  assumes "blockedIPs r k = Some record"
  shows "(now \<le> BlockedUntil record \<and> BlockedUntil record \<noteq> 0 \<longrightarrow>
            IsIPBlocked r k now = (True, Some record)) \<and>
         (BlockedUntil record < now \<longrightarrow> IsIPBlocked r k now = (False, None)) \<and>
         (BlockedUntil record = 0 \<longrightarrow> IsIPBlocked r k now = (False, None))"
  using assms by (simp add: IsIPBlocked_def IsZero_def After_def)

theorem IsIPBlocked_until_expiry_witness:
  "IsIPBlocked example_blocked ''203.0.113.7'' 160 = (True, Some example_record) \<and>
   IsIPBlocked example_blocked ''203.0.113.7'' 161 = (False, None)"
proof -
  have h: "blockedIPs example_blocked ''203.0.113.7'' = Some example_record"
    by (simp add: example_blocked_def)
  have u: "BlockedUntil example_record = 160"
    by (simp add: example_record_def)
  show ?thesis
    using IsIPBlocked_until_expiry [OF h, of 160] IsIPBlocked_until_expiry [OF h, of 161]
    by (simp add: u)
qed


section \<open>Properties of the write-behind queues\<close>

definition full_chan :: "'a chan \<Rightarrow> bool" where
  "full_chan c \<longleftrightarrow> \<not> closed c \<and> cap c \<le> length (buf c)"

definition example_full_store :: "string MongoLogStore" where
  "example_full_store =
     \<lparr>logChan = \<lparr>buf = [''old''], cap = 1, closed = False\<rparr>, logger_ls = [], processStarted = True\<rparr>"

definition example_full_recorder :: MongoIPRecorder where
  "example_full_recorder =
     \<lparr>memory = example_blocked,
      writeQueue = \<lparr>buf = [example_record], cap = 1, closed = False\<rparr>, logger_ip = []\<rparr>"

lemma trySend_full: "full_chan c \<Longrightarrow> trySend c v = SendDefault"
  by (simp add: full_chan_def trySend_def)

text \<open>
  C10. A push into a full (and open) inbox returns at once with the error \<open>nil\<close>: the inbox
  is left as it was, so the incoming record is the one dropped, and the only change is a
  warning in the log. For the log store this is \<open>Store\<close>; for the ban registry the
  in-memory recorder has recorded the ban before the push, and the state returned holds
  exactly that in-memory recorder.
\<close>

theorem full_inbox_drops_newest:
  "(full_chan (logChan s) \<longrightarrow>
      Store s lg = Some (None, s\<lparr>logger_ls := logger_ls s @ [(Warn, ''log channel is full, dropping log entry'')]\<rparr>)) \<and>
   (full_chan (writeQueue r) \<and> RecordBlockedIP (memory r) k reason d now now' = Some mem \<longrightarrow>
      Mongo_RecordBlockedIP r k reason d now now' now2 =
        Some (None, r\<lparr>memory := mem,
                       logger_ip := logger_ip r @ [(Warn, ''MongoDB write queue full, record dropped'')]\<rparr>))"
  by (simp add: Store_def Mongo_RecordBlockedIP_def trySend_full Msg_def)


theorem full_inbox_drops_newest_witness:
  "Store example_full_store ''new'' =
     Some (None, example_full_store\<lparr>logger_ls := [(Warn, ''log channel is full, dropping log entry'')]\<rparr>) \<and>
   Mongo_RecordBlockedIP example_full_recorder ''203.0.113.7'' ''scan'' 60 200 200 201 =
     Some (None, example_full_recorder\<lparr>memory := example_rebanned,
        logger_ip := [(Warn, ''MongoDB write queue full, record dropped'')]\<rparr>)"
proof -
  have f1: "full_chan (logChan example_full_store)"
    by (simp add: example_full_store_def full_chan_def)
  have f2: "full_chan (writeQueue example_full_recorder)"
    by (simp add: example_full_recorder_def full_chan_def)
  have m: "memory example_full_recorder = example_blocked"
    by (simp add: example_full_recorder_def)
  have l1: "logger_ls example_full_store = []"
    by (simp add: example_full_store_def)
  have l2: "logger_ip example_full_recorder = []"
    by (simp add: example_full_recorder_def)
  show ?thesis
    using full_inbox_drops_newest [of example_full_store "''new''" example_full_recorder
        "''203.0.113.7''" "''scan''" 60 200 200 example_rebanned 201]
    by (simp add: f1 f2 m l1 l2 example_reban)
qed

section \<open>Properties of banning: capacity and re-banning\<close>

definition example_two :: MemoryIPRecorder where
  "example_two =
     \<lparr>blockedIPs =
        [''203.0.113.7'' \<mapsto> example_record,
         ''198.51.100.9'' \<mapsto> \<lparr>IP = ''198.51.100.9'', Reason = ''scan'', BlockedAt = 120, BlockedUntil = 300\<rparr>],
      expiryItems = [''203.0.113.7'' \<mapsto> 0, ''198.51.100.9'' \<mapsto> 1],
      expiryHeap = [0, 1],
      items = (\<lambda>_. no_item)
        (0 := \<lparr>ip = ''203.0.113.7'', expiresAt = 160, index = 0\<rparr>,
         1 := \<lparr>ip = ''198.51.100.9'', expiresAt = 300, index = 1\<rparr>),
      nextRef = 2, capacity = 2, logger = [], toDelete = []\<rparr>"

lemma example_blocked_ok: "recorder_ok example_blocked"
  unfolding recorder_ok_def
  by (simp add: example_blocked_def example_record_def hs_def heap_ok_def idx_ok_def ordered_def
      Len_def)

lemma example_two_ok: "recorder_ok example_two"
  unfolding recorder_ok_def
  by (auto simp: example_two_def example_record_def hs_def heap_ok_def idx_ok_def ordered_def
      Len_def keys_def parent_def less_Suc_eq numeral_2_eq_2)

definition example_three :: MemoryIPRecorder where
  "example_three =
     \<lparr>blockedIPs =
        [''192.0.2.1'' \<mapsto> \<lparr>IP = ''192.0.2.1'', Reason = ''scan'', BlockedAt = 40, BlockedUntil = 100\<rparr>,
         ''192.0.2.2'' \<mapsto> \<lparr>IP = ''192.0.2.2'', Reason = ''scan'', BlockedAt = 900, BlockedUntil = 9000\<rparr>,
         ''192.0.2.3'' \<mapsto> \<lparr>IP = ''192.0.2.3'', Reason = ''scan'', BlockedAt = 140, BlockedUntil = 200\<rparr>],
      expiryItems = [''192.0.2.1'' \<mapsto> 0, ''192.0.2.2'' \<mapsto> 1, ''192.0.2.3'' \<mapsto> 2],
      expiryHeap = [0, 1, 2],
      items = (\<lambda>_. no_item)
        (0 := \<lparr>ip = ''192.0.2.1'', expiresAt = 100, index = 0\<rparr>,
         1 := \<lparr>ip = ''192.0.2.2'', expiresAt = 9000, index = 1\<rparr>,
         2 := \<lparr>ip = ''192.0.2.3'', expiresAt = 200, index = 2\<rparr>),
      nextRef = 3, capacity = 3, logger = [], toDelete = []\<rparr>"

lemma example_three_ok: "recorder_ok example_three"
  unfolding recorder_ok_def
  by (auto simp: example_three_def hs_def heap_ok_def idx_ok_def ordered_def
      Len_def keys_def parent_def less_Suc_eq numeral_3_eq_3)

text \<open>
  The run of \<open>ensureCapacity\<close> on the full registry \<open>example_three\<close> when the clock reads
  1000: the first loop pops item 0 (expiry 100) and then item 2 (expiry 200), and stops at
  item 1 (expiry 9000); the two addresses are deleted; the second loop has nothing to do.
\<close>

lemma example_three_run:
  "map_option (\<lambda>(r', tr). (map fst tr, map (\<lambda>x. snd (snd x)) tr, expiryHeap r', toDelete r'))
     (ensureCapacity example_three 1000) =
   Some ([0, 2], [[0, 1, 2], [2, 1]], [1], [''192.0.2.1'', ''192.0.2.3''])"
  by (simp add: ensureCapacity_def example_three_def len_blockedIPs_def hs_def set_hs_def
      expiredLoop.simps evictLoop.simps Peek_def After_def Len_def heap_Pop_def Pop_def Swap_def
      set_index_def down_def downLoop.simps pick_child_def Less_def Before_def delete_ip_def Let_def)

text \<open>
  C7. On a registry that satisfies its invariant, \<open>ensureCapacity\<close> (called by
  \<open>RecordBlockedIP\<close> before it adds a new address) returns and keeps the invariant. The
  items it took out of the heap are exactly the recorded removals, and both maps lose
  exactly the addresses of those items and nothing else. Each removal took an item that
  was in the heap at that moment and whose expiry was least among the items then in the
  heap, and no removed item expires later than an item that stays. Afterwards there is
  room for one more record. Below capacity nothing is removed. On a full registry that
  holds expired items, the expired items are popped, all of them, and no unexpired item
  is touched. On a full registry with no expired item there is exactly one removal: the
  root of the heap, the globally earliest expiry.
\<close>

theorem ensureCapacity_removes_earliest:
  assumes "recorder_ok r"
  shows "\<exists>r' tr. ensureCapacity r now = Some (r', tr) \<and>
           recorder_ok r' \<and>
           mset (expiryHeap r) = mset (map fst tr) + mset (expiryHeap r') \<and>
           blockedIPs r' = blockedIPs r |` (- (\<lambda>x. ip (items r (fst x))) ` set tr) \<and>
           expiryItems r' = expiryItems r |` (- (\<lambda>x. ip (items r (fst x))) ` set tr) \<and>
           capacity r' = capacity r \<and>
           (\<forall>x \<in> set tr. fst x \<in> set (snd (snd x)) \<and>
              (\<forall>b \<in> set (snd (snd x)).
                 expiresAt (fst (snd x) (fst x)) \<le> expiresAt (fst (snd x) b))) \<and>
           (\<forall>x \<in> set tr. \<forall>b \<in> set (expiryHeap r').
              expiresAt (items r (fst x)) \<le> expiresAt (items r b)) \<and>
           len_blockedIPs r' < capacity r' \<and>
           (len_blockedIPs r < capacity r \<longrightarrow> r' = r \<and> tr = []) \<and>
           (capacity r \<le> len_blockedIPs r \<and> (\<exists>a \<in> set (expiryHeap r). expiresAt (items r a) \<le> now)
              \<longrightarrow> fst ` set tr = {a \<in> set (expiryHeap r). expiresAt (items r a) \<le> now}) \<and>
           (capacity r \<le> len_blockedIPs r \<and> (\<forall>a \<in> set (expiryHeap r). now < expiresAt (items r a))
              \<longrightarrow> tr = [(expiryHeap r ! 0, hs r)])"
proof -
  from ensureCapacity_ok [OF assms, of now] obtain r' tr where
    e: "ensureCapacity r now = Some (r', tr)" and w: "recorder_ok r'"
    and l: "list_all least_removed tr"
    and c: "len_blockedIPs r' < capacity r'"
    and ms: "mset (expiryHeap r) = mset (map fst tr) + mset (expiryHeap r')"
    by blast
  from ensureCapacity_effect [OF assms, of now] e have
    mb: "blockedIPs r' = blockedIPs r |` (- (\<lambda>x. ip (items r (fst x))) ` set tr)"
    and mx: "expiryItems r' = expiryItems r |` (- (\<lambda>x. ip (items r (fst x))) ` set tr)"
    and cp: "capacity r' = capacity r"
    and below: "len_blockedIPs r < capacity r \<longrightarrow> r' = r \<and> tr = []"
    and ex: "capacity r \<le> len_blockedIPs r \<and>
             (\<exists>a \<in> set (expiryHeap r). \<not> After (expiresAt (items r a)) now) \<longrightarrow>
               fst ` set tr = {a \<in> set (expiryHeap r). \<not> After (expiresAt (items r a)) now}"
    by auto
  have forced: "tr = [(expiryHeap r ! 0, hs r)]"
    if "capacity r \<le> len_blockedIPs r" "\<forall>a \<in> set (expiryHeap r). now < expiresAt (items r a)"
    using ensureCapacity_forced [OF assms that(1), of now] that(2) e
    by (auto simp: After_def)
  have expired: "fst ` set tr = {a \<in> set (expiryHeap r). expiresAt (items r a) \<le> now}"
    if "capacity r \<le> len_blockedIPs r" "\<exists>a \<in> set (expiryHeap r). expiresAt (items r a) \<le> now"
    using ex that by (auto simp: After_def not_less)
  from ms have st: "set (expiryHeap r) = fst ` set tr \<union> set (expiryHeap r')"
    by (metis set_map set_mset_mset set_mset_union)
  have apart: "b \<notin> fst ` set tr" if "b \<in> set (expiryHeap r')" for b
  proof
    assume "b \<in> fst ` set tr"
    then have "1 \<le> count (mset (map fst tr)) b" by (simp add: Suc_le_eq)
    moreover from that have "1 \<le> count (mset (expiryHeap r')) b" by (simp add: Suc_le_eq)
    ultimately have "2 \<le> count (mset (map fst tr)) b + count (mset (expiryHeap r')) b"
      by linarith
    then have "2 \<le> count (mset (expiryHeap r)) b"
      by (simp only: ms count_union)
    moreover from ok_distinct [OF assms] have "count (mset (expiryHeap r)) b \<le> 1"
      by (simp add: distinct_count_atmost_1)
    ultimately show False by simp
  qed
  have stays: "expiresAt (items r (fst x)) \<le> expiresAt (items r b)"
    if x: "x \<in> set tr" and b: "b \<in> set (expiryHeap r')" for x b
  proof -
    from x below have full: "capacity r \<le> len_blockedIPs r" by auto
    from b st have br: "b \<in> set (expiryHeap r)" by simp
    show ?thesis
    proof (cases "\<exists>a \<in> set (expiryHeap r). expiresAt (items r a) \<le> now")
      case True
      from expired [OF full True] x apart [OF b] br
      have "expiresAt (items r (fst x)) \<le> now" "now < expiresAt (items r b)"
        by auto
      then show ?thesis by simp
    next
      case False
      then have "\<forall>a \<in> set (expiryHeap r). now < expiresAt (items r a)" by auto
      from forced [OF full this] x have "fst x = expiryHeap r ! 0" by simp
      with heap_ok_root_least [OF okD(1) [OF assms], of b] br show ?thesis
        by (simp add: hs_def)
    qed
  qed
  from l have least: "\<forall>x \<in> set tr. fst x \<in> set (snd (snd x)) \<and>
      (\<forall>b \<in> set (snd (snd x)). expiresAt (fst (snd x) (fst x)) \<le> expiresAt (fst (snd x) b))"
    by (simp add: list_all_iff least_removed_def)
  show ?thesis
    using e w ms mb mx cp least stays c below expired forced
    by (intro exI [of _ r'] exI [of _ tr]) blast
qed

theorem ensureCapacity_removes_earliest_witness:
  "(\<exists>r'. ensureCapacity example_two 150 = Some (r', [(0, hs example_two)]) \<and>
          recorder_ok r' \<and> mset [0, 1] = mset [0] + mset (expiryHeap r') \<and>
          blockedIPs r' = blockedIPs example_two |` (- {''203.0.113.7''}) \<and>
          len_blockedIPs r' < capacity r') \<and>
   (\<exists>r' tr. ensureCapacity example_three 1000 = Some (r', tr) \<and>
          recorder_ok r' \<and> map fst tr = [0, 2] \<and> expiryHeap r' = [1] \<and>
          fst ` set tr = {a \<in> set (expiryHeap example_three). expiresAt (items example_three a) \<le> 1000} \<and>
          blockedIPs r' = blockedIPs example_three |` (- {''192.0.2.1'', ''192.0.2.3''}) \<and>
          len_blockedIPs r' < capacity r') \<and>
   ensureCapacity example_blocked 150 = Some (example_blocked, [])"
proof -
  have f: "capacity example_two \<le> len_blockedIPs example_two"
    using ok_len [OF example_two_ok] by (simp add: example_two_def)
  have n: "\<forall>a \<in> set (expiryHeap example_two). 150 < expiresAt (items example_two a)"
    by (simp add: example_two_def)
  have h: "expiryHeap example_two = [0, 1]" "ip (items example_two 0) = ''203.0.113.7''"
    by (simp_all add: example_two_def)
  from ensureCapacity_removes_earliest [OF example_two_ok, of 150] f n obtain r' where
    "ensureCapacity example_two 150 = Some (r', [(expiryHeap example_two ! 0, hs example_two)])"
    "recorder_ok r'"
    "mset (expiryHeap example_two) =
       mset (map fst [(expiryHeap example_two ! 0, hs example_two)]) + mset (expiryHeap r')"
    "blockedIPs r' = blockedIPs example_two |`
       (- (\<lambda>x. ip (items example_two (fst x))) ` set [(expiryHeap example_two ! 0, hs example_two)])"
    "len_blockedIPs r' < capacity r'"
    by auto
  then have forced: "\<exists>r'. ensureCapacity example_two 150 = Some (r', [(0, hs example_two)]) \<and>
          recorder_ok r' \<and> mset [0, 1] = mset [0] + mset (expiryHeap r') \<and>
          blockedIPs r' = blockedIPs example_two |` (- {''203.0.113.7''}) \<and>
          len_blockedIPs r' < capacity r'"
    by (auto simp: h)
  have f3: "capacity example_three \<le> len_blockedIPs example_three"
    using ok_len [OF example_three_ok] by (simp add: example_three_def)
  have n3: "\<exists>a \<in> set (expiryHeap example_three). expiresAt (items example_three a) \<le> 1000"
    by (simp add: example_three_def)
  from ensureCapacity_removes_earliest [OF example_three_ok, of 1000] f3 n3 obtain r' tr where
    t: "ensureCapacity example_three 1000 = Some (r', tr)" "recorder_ok r'"
    "blockedIPs r' = blockedIPs example_three |` (- (\<lambda>x. ip (items example_three (fst x))) ` set tr)"
    "len_blockedIPs r' < capacity r'"
    "fst ` set tr = {a \<in> set (expiryHeap example_three). expiresAt (items example_three a) \<le> 1000}"
    by auto
  from example_three_run t(1) have run: "map fst tr = [0, 2]" "expiryHeap r' = [1]"
    by simp_all
  have "(\<lambda>x. ip (items example_three (fst x))) ` set tr = (\<lambda>a. ip (items example_three a)) ` set (map fst tr)"
    by (simp add: image_image)
  also have "\<dots> = {''192.0.2.1'', ''192.0.2.3''}"
    by (simp add: run example_three_def)
  finally have "(\<lambda>x. ip (items example_three (fst x))) ` set tr = {''192.0.2.1'', ''192.0.2.3''}" .
  with t run have "\<exists>r' tr. ensureCapacity example_three 1000 = Some (r', tr) \<and>
          recorder_ok r' \<and> map fst tr = [0, 2] \<and> expiryHeap r' = [1] \<and>
          fst ` set tr = {a \<in> set (expiryHeap example_three). expiresAt (items example_three a) \<le> 1000} \<and>
          blockedIPs r' = blockedIPs example_three |` (- {''192.0.2.1'', ''192.0.2.3''}) \<and>
          len_blockedIPs r' < capacity r'"
    by auto
  moreover have "len_blockedIPs example_blocked < capacity example_blocked"
    using ok_len [OF example_blocked_ok] by (simp add: example_blocked_def)
  with ensureCapacity_removes_earliest [OF example_blocked_ok, of 150]
  have "ensureCapacity example_blocked 150 = Some (example_blocked, [])"
    by auto
  ultimately show ?thesis
    using forced by blast
qed



section \<open>Properties of the client address derivation\<close>

definition example_xff_headers :: string where
  "example_xff_headers =
     ''Host: example.com'' @ [CHR 0x0D, CHR 0x0A] @
     ''X-Forwarded-For: 203.0.113.7, 10.0.0.1'' @ [CHR 0x0D, CHR 0x0A] @
     ''X-Real-IP: 10.0.0.1'' @ [CHR 0x0D, CHR 0x0A]"

definition example_forwarded_headers :: string where
  \<open>example_forwarded_headers =
     ''Host: example.com'' @ [CHR 0x0A] @
     ''Forwarded: for="[2001:db8::1]";proto=https'' @ [CHR 0x0A] @
     ''User-Agent: curl/8.0''\<close>

definition example_plain_headers :: string where
  "example_plain_headers =
     ''Host: example.com'' @ [CHR 0x0A] @ ''Accept: */*'' @ [CHR 0x0A]"

definition example_request :: "string \<Rightarrow> applicationRequest" where
  "example_request hdrs =
     \<lparr>SrcIp = Some ''192.0.2.44'', SrcPort = 40000, DstIp = Some ''198.51.100.1'', DstPort = 443,
      Method = ''GET'', ID = ''ABCDEFGHIJKLMNOP'', Path = ''/login'', Query = None,
      Version = ''1.1'', Headers = hdrs, Body = []\<rparr>"

lemmas header_eval =
  getHeaderValue_def ScanLines_def dropCR_def MaxScanTokenSize_def TrimSpace_def isSpace_def
  EqualFold_def toLowerASCII_def

lemma example_xff_value:
  "getHeaderValue example_xff_headers ''x-forwarded-for'' = ''203.0.113.7, 10.0.0.1''"
  by (simp add: example_xff_headers_def header_eval)

lemma example_forwarded_lines:
  \<open>ScanLines example_forwarded_headers =
     [''Host: example.com'', ''Forwarded: for="[2001:db8::1]";proto=https'', ''User-Agent: curl/8.0'']\<close>
  by (simp add: example_forwarded_headers_def ScanLines_def dropCR_def MaxScanTokenSize_def)

lemma example_forwarded_value:
  \<open>getHeaderValue example_forwarded_headers ''forwarded'' = ''for="[2001:db8::1]";proto=https''\<close>
  by (simp add: getHeaderValue_def example_forwarded_lines TrimSpace_def isSpace_def
      EqualFold_def toLowerASCII_def)

lemma example_forwarded_others:
  "\<forall>h \<in> set clientIPHeaders. h \<noteq> ''forwarded'' \<longrightarrow> getHeaderValue example_forwarded_headers h = []"
  by (simp add: clientIPHeaders_def getHeaderValue_def example_forwarded_lines TrimSpace_def
      isSpace_def EqualFold_def toLowerASCII_def)

lemma example_plain_lines:
  "ScanLines example_plain_headers = [''Host: example.com'', ''Accept: */*'']"
  by (simp add: example_plain_headers_def ScanLines_def dropCR_def MaxScanTokenSize_def)

lemma example_plain_none:
  "\<forall>h \<in> set clientIPHeaders. getHeaderValue example_plain_headers h = []"
  by (simp add: clientIPHeaders_def getHeaderValue_def example_plain_lines TrimSpace_def
      isSpace_def EqualFold_def toLowerASCII_def)

text \<open>
  C5. Three cases of \<open>getRealClientIP\<close>. (1) When the \<open>X-Forwarded-For\<close> header of the block
  is \<open>203.0.113.7, 10.0.0.1\<close>, the client address is \<open>203.0.113.7\<close>: the first element of the
  chain, trimmed. (2) When \<open>Forwarded\<close> is the only forwarding header and its value is
  \<open>for="[2001:db8::1]";proto=https\<close>, the client address is \<open>2001:db8::1\<close>: quotes and
  brackets are stripped. (3) When none of the nine forwarding headers has a value, the
  client address is the text of the (valid) transport-level source address.
\<close>

theorem getRealClientIP_cases:
  \<open>(getHeaderValue (Headers req) ''x-forwarded-for'' = ''203.0.113.7, 10.0.0.1'' \<longrightarrow>
      getRealClientIP (Some req) = ''203.0.113.7'') \<and>
   ((\<forall>h \<in> set clientIPHeaders. h \<noteq> ''forwarded'' \<longrightarrow> getHeaderValue (Headers req) h = []) \<and>
    getHeaderValue (Headers req) ''forwarded'' = ''for="[2001:db8::1]";proto=https'' \<longrightarrow>
      getRealClientIP (Some req) = ''2001:db8::1'') \<and>
   ((\<forall>h \<in> set clientIPHeaders. getHeaderValue (Headers req) h = []) \<and> SrcIp req = Some a \<longrightarrow>
      getRealClientIP (Some req) = a)\<close>
proof (intro conjI impI)
  assume "getHeaderValue (Headers req) ''x-forwarded-for'' = ''203.0.113.7, 10.0.0.1''"
  then show "getRealClientIP (Some req) = ''203.0.113.7''"
    by (simp add: getRealClientIP_def clientIPHeaders_def TrimSpace_def isSpace_def)
next
  assume \<open>(\<forall>h \<in> set clientIPHeaders. h \<noteq> ''forwarded'' \<longrightarrow> getHeaderValue (Headers req) h = []) \<and>
    getHeaderValue (Headers req) ''forwarded'' = ''for="[2001:db8::1]";proto=https''\<close>
  then show "getRealClientIP (Some req) = ''2001:db8::1''"
    by (simp add: getRealClientIP_def clientIPHeaders_def TrimSpace_def isSpace_def Trim_def
        stripBrackets_def HasPrefix_def HasSuffix_def)
next
  assume "(\<forall>h \<in> set clientIPHeaders. getHeaderValue (Headers req) h = []) \<and> SrcIp req = Some a"
  then show "getRealClientIP (Some req) = a"
    by (simp add: getRealClientIP_def clientIPHeaders_def)
qed

theorem getRealClientIP_cases_witness:
  "getRealClientIP (Some (example_request example_xff_headers)) = ''203.0.113.7'' \<and>
   getRealClientIP (Some (example_request example_forwarded_headers)) = ''2001:db8::1'' \<and>
   getRealClientIP (Some (example_request example_plain_headers)) = ''192.0.2.44''"
proof -
  have h: "Headers (example_request hdrs) = hdrs" for hdrs
    by (simp add: example_request_def)
  have s: "SrcIp (example_request hdrs) = Some ''192.0.2.44''" for hdrs
    by (simp add: example_request_def)
  show ?thesis
    using getRealClientIP_cases [of "example_request example_xff_headers"]
      getRealClientIP_cases [of "example_request example_forwarded_headers"]
      getRealClientIP_cases [of "example_request example_plain_headers" "''192.0.2.44''"]
      example_xff_value example_forwarded_value example_forwarded_others example_plain_none
    by (simp only: h s simp_thms)
qed

section \<open>Properties of the response handler\<close>

definition example_env :: env where
  "example_env =
     \<lparr>clock = 150, random = (\<lambda>i. i),
      FormatRFC3339 = (\<lambda>t. if t = 160 then ''0001-01-01T00:00:00Z'' else ''other''),
      on_CheckVisit = (\<lambda>_. (True, None)), on_MatchRequest = (\<lambda>_. (False, None, None)),
      on_SetString = (\<lambda>_. None), on_IsRuleEngineOff = (\<lambda>_. False),
      on_ProcessHeaders = (\<lambda>_. None), on_WriteBody = (\<lambda>_. (None, None)),
      on_ProcessBody = (\<lambda>_. (None, None)), on_IsInterrupted = (\<lambda>_ _. False),
      on_Interruption = (\<lambda>_ _. \<lparr>RuleID = 0, Action = [], Status = 0, Data = []\<rparr>),
      on_MatchedRules = (\<lambda>_ _. []), on_Close = (\<lambda>_. None)\<rparr>"

definition example_app :: Application where
  "example_app =
     \<lparr>ResponseCheck = True, TransactionTTL = 10,
      ipRecorder = Some \<lparr>memory = example_blocked, writeQueue = make_chan 1000, logger_ip = []\<rparr>,
      flowController = True, ruleEngine = True, logStore = Some (NewMongoLogStore []),
      cache = [''HELD'' \<mapsto> 0],
      txs = (\<lambda>_. \<lparr>tx = 0, m = True, request = None\<rparr>),
      nextTref = 1, nextTx = 1, Logger = [], calls = []\<rparr>"

definition example_response :: "string \<Rightarrow> kv list" where
  "example_response i = [KV_id i, KV_version ''1.1'', KV_status 200, KV_headers [], KV_src_port 1]"

lemma parse_example_response:
  "parseResponse (example_response i) zeroResponse lg =
     (\<lparr>ResID = i, ResVersion = ''1.1'', ResStatus = 200, ResHeaders = [], ResBody = []\<rparr>,
      lg @ [(Debug, ''unknown kv entry'')])"
  by (simp add: example_response_def zeroResponse_def Msg_def)

text \<open>
  C9. With response checking on, a response message whose (non-empty) transaction id has
  no entry in the cache makes \<open>HandleResponse\<close> return \<open>nil\<close>; the only effect is one log
  entry, \<open>transaction not found\<close>, after those of the parse.
\<close>

theorem HandleResponse_miss_is_success:
  assumes "ResponseCheck a"
      and "parseResponse message zeroResponse (Logger a) = (res, lg)"
      and "ResID res \<noteq> []"
      and "cache a (ResID res) = None"
  shows "HandleResponse e a message =
           Some (None, a\<lparr>Logger := lg @ [(Error, ''transaction not found'')]\<rparr>)"
  using assms by (simp add: HandleResponse_def logMsg_def Msg_def)

theorem HandleResponse_miss_is_success_witness:
  "HandleResponse example_env example_app (example_response ''GONE'') =
     Some (None, example_app\<lparr>Logger := [(Debug, ''unknown kv entry''), (Error, ''transaction not found'')]\<rparr>)"
proof -
  have r: "ResponseCheck example_app" and c: "cache example_app ''GONE'' = None"
    and l: "Logger example_app = []"
    by (simp_all add: example_app_def)
  show ?thesis
    using HandleResponse_miss_is_success [of example_app "example_response ''GONE''" _ _ example_env,
        OF r parse_example_response]
    by (simp add: c l)
qed

text \<open>
  C2 as stated fails: when the entry is found and its lock is held, the handler returns an
  error. Here the transaction cached under \<open>HELD\<close> is locked.
\<close>

theorem HandleResponse_lost_race_counterexample:
  "map_option fst (HandleResponse example_env example_app (example_response ''HELD'')) =
     Some (Some (Errorf ''transaction is already being deleted: HELD''))"
  by (simp add: HandleResponse_def parse_example_response example_app_def TryLock_def)

text \<open>
  C2, amended. With response checking on, when the entry for the transaction id is found
  and the lock of its transaction is held, the handler removes the entry from the cache,
  does nothing else (no call to a collaborator, no log entry of its own, the transaction
  untouched) and returns the error \<open>transaction is already being deleted\<close> with the id.
\<close>

theorem HandleResponse_lost_race:
  assumes "ResponseCheck a"
      and "parseResponse message zeroResponse (Logger a) = (res, lg)"
      and "ResID res \<noteq> []"
      and "cache a (ResID res) = Some t"
      and "m (txs a t)"
  shows "HandleResponse e a message =
           Some (Some (Errorf (''transaction is already being deleted: '' @ ResID res)),
                 a\<lparr>Logger := lg, cache := (cache a)(ResID res := None)\<rparr>)"
  using assms by (simp add: HandleResponse_def TryLock_def)

theorem HandleResponse_lost_race_witness:
  "HandleResponse example_env example_app (example_response ''HELD'') =
     Some (Some (Errorf ''transaction is already being deleted: HELD''),
           example_app\<lparr>Logger := [(Debug, ''unknown kv entry'')], cache := Map.empty\<rparr>)"
proof -
  have r: "ResponseCheck example_app" and c: "cache example_app ''HELD'' = Some 0"
    and l: "Logger example_app = []" and k: "m (txs example_app 0)"
    and d: "(cache example_app)(''HELD'' := None) = Map.empty"
    by (simp_all add: example_app_def)
  show ?thesis
    using HandleResponse_lost_race [of example_app "example_response ''HELD''" _ _ 0 example_env,
        OF r parse_example_response]
    by (simp add: c l k d)
qed

section \<open>Properties of the request handler\<close>

definition example_message :: "kv list" where
  "example_message =
     [KV_src_ip (Some ''203.0.113.7''), KV_src_port 40000, KV_dst_ip (Some ''198.51.100.1''),
      KV_dst_port 443, KV_method ''GET'', KV_path ''/login'', KV_version ''1.1'',
      KV_headers ''Host: example.com'', KV_id ''REQ1'']"

definition example_decoded :: applicationRequest where
  "example_decoded =
     \<lparr>SrcIp = Some ''203.0.113.7'', SrcPort = 40000, DstIp = Some ''198.51.100.1'', DstPort = 443,
      Method = ''GET'', ID = ''REQ1'', Path = ''/login'', Query = None, Version = ''1.1'',
      Headers = ''Host: example.com'', Body = []\<rparr>"

lemma decode_example:
  "decodeRequest example_env example_app example_message = (example_decoded, example_app)"
  by (simp add: decodeRequest_def example_message_def example_decoded_def zeroRequest_def
      example_app_def)

lemma example_client_ip: "getRealClientIP (Some example_decoded) = ''203.0.113.7''"
proof -
  have "ScanLines ''Host: example.com'' = [''Host: example.com'']"
    by (simp add: ScanLines_def dropCR_def MaxScanTokenSize_def)
  then have "\<forall>h \<in> set clientIPHeaders. getHeaderValue (Headers example_decoded) h = []"
    by (simp add: clientIPHeaders_def getHeaderValue_def example_decoded_def TrimSpace_def
        isSpace_def EqualFold_def toLowerASCII_def)
  then show ?thesis
    by (simp add: getRealClientIP_def clientIPHeaders_def example_decoded_def)
qed

text \<open>
  C3. When the ban registry holds a record for the derived client address whose expiry is
  not the zero time and has not passed, \<open>HandleRequest\<close> returns a deny with status 403
  whose message is \<open>IP has been blocked until\<close>, the expiry in RFC 3339 format, \<open>due to\<close>
  and the ban reason. Apart from the log entries nothing in the application state changes:
  no call is made to the flow controller, the rule engine or the matching engine, no
  transaction is opened and none is cached.
\<close>

theorem banned_request_denied:
  assumes "decodeRequest e a message = (req, a1)"
      and "ipRecorder a = Some rec"
      and "blockedIPs (memory rec) (getRealClientIP (Some req)) = Some record"
      and "clock e \<le> BlockedUntil record"
      and "BlockedUntil record \<noteq> 0"
  shows "HandleRequest e a message =
           Some (Some (ErrInterrupted
                   \<lparr>RuleID = 0, Action = ''deny'', Status = 403,
                    Data = ''IP has been blocked until '' @ FormatRFC3339 e (BlockedUntil record)
                           @ '' due to '' @ Reason record\<rparr>),
                 a\<lparr>Logger := Logger a1 @ [(Info, ''request denied: IP is blocked'')]\<rparr>)"
proof -
  from assms(1) obtain lg where a1: "a1 = a\<lparr>Logger := lg\<rparr>"
    by (auto simp: decodeRequest_def split: prod.splits)
  have ir: "ipRecorder a1 = Some rec"
    using assms(2) a1 by simp
  have "Mongo_IsIPBlocked rec (getRealClientIP (Some req)) (clock e) = (True, Some record)"
    using assms(3-5) by (simp add: Mongo_IsIPBlocked_def IsIPBlocked_def IsZero_def After_def)
  with ir have "banGate e a1 (getRealClientIP (Some req)) =
      Some (Inl (deny 403 (''IP has been blocked until '' @ FormatRFC3339 e (BlockedUntil record)
                            @ '' due to '' @ Reason record),
                 logMsg a1 Info ''request denied: IP is blocked''))"
    by (simp add: banGate_def)
  with assms(1) show ?thesis
    by (simp add: HandleRequest_def gates_def deny_def logMsg_def Msg_def a1)
qed

theorem banned_request_denied_witness:
  "HandleRequest example_env example_app example_message =
     Some (Some (ErrInterrupted
             \<lparr>RuleID = 0, Action = ''deny'', Status = 403,
              Data = ''IP has been blocked until 0001-01-01T00:00:00Z due to bruteforce''\<rparr>),
           example_app\<lparr>Logger := [(Info, ''request denied: IP is blocked'')]\<rparr>)"
proof -
  have r: "ipRecorder example_app =
      Some \<lparr>memory = example_blocked, writeQueue = make_chan 1000, logger_ip = []\<rparr>"
    and l: "Logger example_app = []"
    by (simp_all add: example_app_def)
  have b: "blockedIPs (memory \<lparr>memory = example_blocked, writeQueue = make_chan 1000, logger_ip = []\<rparr>)
      (getRealClientIP (Some example_decoded)) = Some example_record"
    by (simp add: example_client_ip example_blocked_def)
  have c: "clock example_env \<le> BlockedUntil example_record" "BlockedUntil example_record \<noteq> 0"
    by (simp_all add: example_env_def example_record_def)
  have f: "FormatRFC3339 example_env (BlockedUntil example_record) = ''0001-01-01T00:00:00Z''"
    "Reason example_record = ''bruteforce''"
    by (simp_all add: example_env_def example_record_def)
  show ?thesis
    using banned_request_denied [OF decode_example r b c]
    by (simp add: l f)
qed

section \<open>The calls a handler adds\<close>

text \<open>
  \<open>extends P a a'\<close>: from \<open>a\<close> to \<open>a'\<close> the record of calls grew by calls that satisfy \<open>P\<close>,
  and the transactions, the cache and the two allocation counters are as they were.
  \<open>gateCall\<close> holds for the calls of the three gates, \<open>quiet\<close> for every call but the
  logging hook and \<open>Close\<close>.
\<close>

definition extends :: "(call \<Rightarrow> bool) \<Rightarrow> Application \<Rightarrow> Application \<Rightarrow> bool" where
  "extends P a a' \<longleftrightarrow>
     (\<exists>new. calls a' = calls a @ new \<and> list_all P new) \<and>
     nextTx a' = nextTx a \<and> txs a' = txs a \<and> cache a' = cache a \<and> nextTref a' = nextTref a"

fun gateCall :: "call \<Rightarrow> bool" where
  "gateCall (CheckVisit _) = True"
| "gateCall (MatchRequest _ _ _) = True"
| "gateCall (RecordAttack _) = True"
| "gateCall _ = False"

fun quiet :: "call \<Rightarrow> bool" where
  "quiet (ProcessLogging _) = False"
| "quiet (Close _) = False"
| "quiet _ = True"

abbreviation gated :: "Application \<Rightarrow> Application \<Rightarrow> bool" where
  "gated \<equiv> extends gateCall"

lemma gateCall_quiet: "gateCall c \<Longrightarrow> quiet c"
  by (cases c) simp_all

lemma calls_call [simp]: "calls (call a c) = calls a @ [c]"
  by (simp add: call_def)

lemma calls_logMsg [simp]: "calls (logMsg a lv s) = calls a"
  by (simp add: logMsg_def)

lemma extends_refl: "extends P a a"
  by (simp add: extends_def)

lemma extends_trans: "extends P a b \<Longrightarrow> extends P b c \<Longrightarrow> extends P a c"
  by (auto simp: extends_def)

lemma extends_mono: "extends P a b \<Longrightarrow> (\<And>c. P c \<Longrightarrow> Q c) \<Longrightarrow> extends Q a b"
  by (auto simp: extends_def list_all_iff)

lemma extends_call: "P c \<Longrightarrow> extends P a (call a c)"
  by (simp add: extends_def call_def)

lemma extends_logMsg: "extends P a (logMsg a lv s)"
  by (simp add: extends_def logMsg_def)

lemma extends_storeLog: "storeLog a w = Some (er, a') \<Longrightarrow> extends P a a'"
  by (auto simp: storeLog_def extends_def split: option.splits)

lemma calls_storeLog: "storeLog a w = Some (er, a') \<Longrightarrow> calls a' = calls a"
  by (auto simp: storeLog_def split: option.splits)

section \<open>Where the request handler writes the transaction id\<close>

text \<open>
  \<open>deniedBy\<close> names the gate that denies a decoded request, if one does; \<open>newCalls\<close> are the
  calls a handler added to the record of calls.
\<close>

definition deniedBy :: "env \<Rightarrow> Application \<Rightarrow> applicationRequest \<Rightarrow> gate option" where
  "deniedBy e a req =
     (case gates e a req (getRealClientIP (Some req)) of
        Some (Inl (g, _, _)) \<Rightarrow> Some g
      | _ \<Rightarrow> None)"

definition newCalls :: "Application \<Rightarrow> Application \<Rightarrow> call list" where
  "newCalls a a' = drop (length (calls a)) (calls a')"

lemma gated_banGate:
  "banGate e a realIP = Some r \<Longrightarrow> gated a (case r of Inl (_, a') \<Rightarrow> a' | Inr a' \<Rightarrow> a')"
  by (auto simp: banGate_def extends_refl extends_logMsg split: option.splits prod.splits bool.splits)

lemma gated_flowGate:
  "gated a (case flowGate e a realIP of Inl (_, a') \<Rightarrow> a' | Inr a' \<Rightarrow> a')"
proof (cases "flowController a")
  case False
  then show ?thesis by (simp add: flowGate_def extends_refl)
next
  case True
  have c: "gated a (call a (CheckVisit realIP))"
    by (simp add: extends_call)
  obtain al er where o: "on_CheckVisit e (calls (call a (CheckVisit realIP))) = (al, er)"
    by (cases "on_CheckVisit e (calls (call a (CheckVisit realIP)))") auto
  show ?thesis
  proof (cases er)
    case None
    with True o c show ?thesis by (simp add: flowGate_def Let_def)
  next
    case (Some x)
    with True o extends_trans [OF c extends_logMsg] show ?thesis
      by (simp add: flowGate_def Let_def)
  qed
qed

lemma gated_microGate:
  assumes "microGate e a req = Some r"
  shows "gated a (case r of Inl (_, a') \<Rightarrow> a' | Inr a' \<Rightarrow> a')"
proof (cases "ruleEngine a")
  case False
  with assms show ?thesis by (auto simp: microGate_def extends_refl)
next
  case True
  define url where "url = (case Query req of None \<Rightarrow> Path req
          | Some q \<Rightarrow> if length q > 0 then Path req @ ''?'' @ q else Path req)"
  define a1 where "a1 = call a (MatchRequest (getRealClientIP (Some req)) url (Path req))"
  obtain sb rule er where o: "on_MatchRequest e (calls a1) = (sb, rule, er)"
    by (cases "on_MatchRequest e (calls a1)") auto
  define a2 where "a2 = (if er \<noteq> None then logMsg a1 Error ''failed to match request'' else a1)"
  have g1: "gated a a1"
    by (simp add: a1_def extends_call)
  have g2: "gated a a2"
    using g1 extends_trans [OF g1 extends_logMsg] by (simp add: a2_def)
  define a3 where "a3 = (if flowController a2 then call a2 (RecordAttack (getRealClientIP (Some req))) else a2)"
  define a4 where "a4 = logMsg a3 Info ''request blocked by micro engine''"
  have mg: "microGate e a req =
      (if sb \<and> er = None then
         (case saveMicroEngineLog a4 rule req (Headers req) of
            None \<Rightarrow> None
          | Some (None, a5) \<Rightarrow> Some (Inl (deny 403 [], a5))
          | Some (Some _, a5) \<Rightarrow>
              Some (Inl (deny 403 [], logMsg a5 Error ''failed to save micro engine log'')))
       else Some (Inr a2))"
    using True o by (simp add: microGate_def Let_def a1_def a2_def a3_def a4_def url_def)
  show ?thesis
  proof (cases "sb \<and> er = None")
    case False
    with assms mg have "r = Inr a2" by simp
    with g2 show ?thesis by simp
  next
    case blocked: True
    have "gated a2 a3"
      by (simp add: a3_def extends_call extends_refl)
    then have g4: "gated a a4"
      unfolding a4_def using g2 extends_logMsg extends_trans by blast
    from assms mg blocked obtain sr a5 where
      s: "saveMicroEngineLog a4 rule req (Headers req) = Some (sr, a5)"
      by (cases "saveMicroEngineLog a4 rule req (Headers req)") auto
    then have "gated a4 a5"
      by (auto simp: saveMicroEngineLog_def Let_def dest: extends_storeLog)
    with g4 have g5: "gated a a5" by (rule extends_trans)
    have g6: "gated a (logMsg a5 Error ''failed to save micro engine log'')"
      using g5 extends_logMsg by (rule extends_trans)
    from assms mg blocked s have
      "r = Inl (deny 403 [], a5) \<or> r = Inl (deny 403 [], logMsg a5 Error ''failed to save micro engine log'')"
      by (cases sr) auto
    with g5 g6 show ?thesis by auto
  qed
qed

lemma gated_gates:
  assumes "gates e a req realIP = Some r"
  shows "gated a (case r of Inl (_, _, a') \<Rightarrow> a' | Inr a' \<Rightarrow> a')"
proof (cases "banGate e a realIP")
  case None
  with assms show ?thesis by (simp add: gates_def)
next
  case (Some b)
  show ?thesis
  proof (cases b)
    case (Inl d)
    with assms Some gated_banGate [OF Some] show ?thesis
      by (auto simp: gates_def split: prod.splits)
  next
    case (Inr a1)
    with gated_banGate [OF Some] have c1: "gated a a1" by simp
    show ?thesis
    proof (cases "flowGate e a1 realIP")
      case fl: (Inl d)
      with gated_flowGate [of a1 e realIP] have "gated a1 (snd d)"
        by (simp split: prod.splits)
      with c1 have "gated a (snd d)" by (rule extends_trans)
      with assms Some Inr fl show ?thesis
        by (auto simp: gates_def split: prod.splits)
    next
      case fr: (Inr a2)
      with gated_flowGate [of a1 e realIP] have "gated a1 a2" by simp
      with c1 have c2: "gated a a2" by (rule extends_trans)
      show ?thesis
      proof (cases "microGate e a2 req")
        case None
        with assms Some Inr fr show ?thesis by (simp add: gates_def)
      next
        case ms: (Some r2)
        from extends_trans [OF c2 gated_microGate [OF ms]]
        have "gated a (case r2 of Inl (_, a') \<Rightarrow> a' | Inr a' \<Rightarrow> a')" .
        with assms Some Inr fr ms show ?thesis
          by (cases r2) (auto simp: gates_def split: prod.splits)
      qed
    qed
  qed
qed

lemma calls_logAndClose: "calls (logAndClose e a h) = calls a @ [ProcessLogging h, Close h]"
  by (simp add: logAndClose_def Let_def split: option.splits)

lemma calls_finalize:
  "finalize e a h req realIP = Some a' \<Longrightarrow> \<exists>new. calls a' = calls a @ new"
  by (auto simp: finalize_def Let_def saveFirewallLog_def calls_logAndClose
      split: if_splits option.splits dest!: calls_storeLog)

lemma calls_addHeaders:
  "calls (foldl (\<lambda>s (k, v). call s (f k v)) a hdrs) = calls a @ map (\<lambda>(k, v). f k v) hdrs"
  by (induction hdrs arbitrary: a) (auto split: prod.splits)

lemma calls_requestBody:
  "requestBody e a h req = (err, a') \<Longrightarrow> \<exists>new. calls a' = calls a @ new"
  by (auto simp: requestBody_def Let_def split: option.splits)

lemma calls_requestPhases:
  "requestPhases e a h req = (err, a') \<Longrightarrow>
     \<exists>rest. calls a' = calls a @ SetString ''id'' (ID req) # rest"
  by (auto simp: requestPhases_def Let_def calls_addHeaders
      split: option.splits if_splits prod.splits dest!: calls_requestBody)

lemma calls_openAndProcess:
  assumes "openAndProcess e a req realIP = Some (err, a')"
  shows "\<exists>rest. calls a' =
           calls a @ NewTransactionWithID (nextTx a) (ID req) # SetString ''id'' (ID req) # rest"
proof -
  obtain er a2 where p: "requestPhases e (call (a\<lparr>nextTx := Suc (nextTx a)\<rparr>)
      (NewTransactionWithID (nextTx a) (ID req))) (nextTx a) req = (er, a2)"
    by (cases "requestPhases e (call (a\<lparr>nextTx := Suc (nextTx a)\<rparr>)
      (NewTransactionWithID (nextTx a) (ID req))) (nextTx a) req") auto
  from calls_requestPhases [OF p] obtain rest where
    c2: "calls a2 = calls a @ NewTransactionWithID (nextTx a) (ID req) # SetString ''id'' (ID req) # rest"
    by auto
  from assms p have "afterRequest e a2 (nextTx a) req realIP er = Some (err, a')"
    by (simp add: openAndProcess_def Let_def)
  then have "\<exists>new. calls a' = calls a2 @ new"
    by (auto simp: afterRequest_def Let_def split: if_splits option.splits dest!: calls_finalize)
  with c2 show ?thesis by auto
qed

text \<open>
  C4 as stated fails: a request from a banned address is denied without the id being
  written. In the example no call at all is made.
\<close>

theorem id_not_written_on_ban_counterexample:
  "map_option (\<lambda>r. calls (snd r)) (HandleRequest example_env example_app example_message) = Some []"
proof -
  have "ipRecorder example_app =
      Some \<lparr>memory = example_blocked, writeQueue = make_chan 1000, logger_ip = []\<rparr>"
    by (simp add: example_app_def)
  moreover have "Mongo_IsIPBlocked \<lparr>memory = example_blocked, writeQueue = make_chan 1000, logger_ip = []\<rparr>
      ''203.0.113.7'' (clock example_env) = (True, Some example_record)"
    by (simp add: Mongo_IsIPBlocked_def IsIPBlocked_def example_blocked_def example_record_def
        example_env_def IsZero_def After_def)
  ultimately have "banGate example_env example_app ''203.0.113.7'' =
      Some (Inl (deny 403 (''IP has been blocked until '' @
                   FormatRFC3339 example_env (BlockedUntil example_record) @ '' due to '' @
                   Reason example_record),
                 logMsg example_app Info ''request denied: IP is blocked''))"
    by (simp add: banGate_def)
  moreover have "calls example_app = []"
    by (simp add: example_app_def)
  ultimately show ?thesis
    by (simp add: HandleRequest_def decode_example example_client_ip gates_def)
qed

text \<open>
  C4, amended. The handler calls the action writer with the transaction id exactly for the
  requests that no gate (ban registry, flow control, rule engine) denies: for those it opens
  the matching-engine transaction and at once sets \<open>id\<close>, whatever the engine decides
  afterwards. A request denied by a gate returns before the transaction is opened, and the
  handler makes no call to the action writer.
\<close>

theorem id_written_iff_no_gate_denies:
  assumes "decodeRequest e a message = (req, a1)"
      and "HandleRequest e a message = Some (err, a')"
  shows "(deniedBy e a1 req = None \<longrightarrow>
            (\<exists>pre rest. newCalls a a' =
               pre @ NewTransactionWithID (nextTx a) (ID req) # SetString ''id'' (ID req) # rest \<and>
               (\<forall>c \<in> set pre. gateCall c))) \<and>
         (deniedBy e a1 req \<noteq> None \<longrightarrow> (\<forall>c \<in> set (newCalls a a'). gateCall c))"
proof -
  from assms(1) obtain lg where a1: "a1 = a\<lparr>Logger := lg\<rparr>"
    by (auto simp: decodeRequest_def split: prod.splits)
  then have ca: "calls a1 = calls a" and na: "nextTx a1 = nextTx a" by simp_all
  let ?ip = "getRealClientIP (Some req)"
  from assms obtain r where g: "gates e a1 req ?ip = Some r"
    by (cases "gates e a1 req ?ip") (auto simp: HandleRequest_def)
  from gated_gates [OF g] ca na obtain pre where
    p: "calls (case r of Inl (_, _, a2) \<Rightarrow> a2 | Inr a2 \<Rightarrow> a2) = calls a @ pre"
    and gp: "\<forall>c \<in> set pre. gateCall c"
    and n: "nextTx (case r of Inl (_, _, a2) \<Rightarrow> a2 | Inr a2 \<Rightarrow> a2) = nextTx a"
    by (auto simp: extends_def list_all_iff)
  show ?thesis
  proof (cases r)
    case (Inl d)
    obtain gt er a2 where d: "d = (gt, er, a2)" by (cases d) auto
    with assms g Inl have "a' = a2" by (simp add: HandleRequest_def)
    with p Inl d have "newCalls a a' = pre" by (simp add: newCalls_def)
    with gp g Inl d show ?thesis by (simp add: deniedBy_def)
  next
    case (Inr a2)
    with p n have c2: "calls a2 = calls a @ pre" and n2: "nextTx a2 = nextTx a" by simp_all
    from assms g Inr have o: "openAndProcess e a2 req ?ip = Some (err, a')"
      by (simp add: HandleRequest_def)
    from calls_openAndProcess [OF o] n2 c2 obtain rest where
      "calls a' = calls a @ pre @ NewTransactionWithID (nextTx a) (ID req) # SetString ''id'' (ID req) # rest"
      by auto
    then have "newCalls a a' = pre @ NewTransactionWithID (nextTx a) (ID req) # SetString ''id'' (ID req) # rest"
      by (simp add: newCalls_def)
    with gp g Inr show ?thesis by (auto simp: deniedBy_def)
  qed
qed

definition example_open_app :: Application where
  "example_open_app = example_app\<lparr>ipRecorder := None\<rparr>"

definition example_gated :: Application where
  "example_gated =
     example_open_app\<lparr>calls := [CheckVisit ''203.0.113.7'', MatchRequest ''203.0.113.7'' ''/login'' ''/login'']\<rparr>"

definition example_cached :: Application where
  "example_cached =
     example_open_app
       \<lparr>cache := [''HELD'' \<mapsto> 0, ''REQ1'' \<mapsto> 1],
        txs := (txs example_open_app)(1 := \<lparr>tx = 1, m = False, request = Some example_decoded\<rparr>),
        nextTref := 2, nextTx := 2,
        calls := [CheckVisit ''203.0.113.7'', MatchRequest ''203.0.113.7'' ''/login'' ''/login'',
                  NewTransactionWithID 1 ''REQ1'', SetString ''id'' ''REQ1'', IsRuleEngineOff 1,
                  ProcessConnection 1 ''203.0.113.7'' 40000 ''198.51.100.1'' 443,
                  ProcessURI 1 ''/login'' ''GET'' ''HTTP/1.1'',
                  AddRequestHeader 1 ''Host'' ''example.com'', ProcessRequestHeaders 1,
                  WriteRequestBody 1 [], ProcessRequestBody 1]\<rparr>"

lemma decode_example_open:
  "decodeRequest example_env example_open_app example_message = (example_decoded, example_open_app)"
  by (simp add: decodeRequest_def example_message_def example_decoded_def zeroRequest_def
      example_app_def example_open_app_def)

lemma example_fields:
  "ID example_decoded = ''REQ1''" "Path example_decoded = ''/login''" "Query example_decoded = None"
  "Headers example_decoded = ''Host: example.com''" "Body example_decoded = []"
  "SrcIp example_decoded = Some ''203.0.113.7''" "DstIp example_decoded = Some ''198.51.100.1''"
  "SrcPort example_decoded = 40000" "DstPort example_decoded = 443" "Method example_decoded = ''GET''"
  "Version example_decoded = ''1.1''"
  by (simp_all add: example_decoded_def)

lemma example_open_gates:
  "gates example_env example_open_app example_decoded ''203.0.113.7'' = Some (Inr example_gated)"
  by (simp add: gates_def banGate_def flowGate_def microGate_def example_client_ip example_fields
      example_open_app_def example_app_def example_env_def call_def logMsg_def Let_def
      example_gated_def)

lemma example_read: "readHeaders ''Host: example.com'' = ([(''Host'', ''example.com'')], None)"
  by (simp add: readHeaders_def ScanLines_def dropCR_def MaxScanTokenSize_def TrimSpace_def
      isSpace_def)

lemma example_open_process:
  "openAndProcess example_env example_gated example_decoded ''203.0.113.7'' = Some (None, example_cached)"
  by (simp add: openAndProcess_def requestPhases_def requestBody_def interruptedBy_def
      afterRequest_def example_fields example_read requestURL_def AddrString_def example_gated_def
      example_cached_def example_open_app_def example_app_def example_env_def call_def logMsg_def
      Let_def)

lemma example_open_handle:
  "HandleRequest example_env example_open_app example_message = Some (None, example_cached)"
  by (simp add: HandleRequest_def decode_example_open example_client_ip example_open_gates
      example_open_process)

theorem id_written_iff_no_gate_denies_witness:
  "deniedBy example_env example_open_app example_decoded = None \<and>
   (\<exists>pre rest. newCalls example_open_app example_cached =
      pre @ NewTransactionWithID 1 ''REQ1'' # SetString ''id'' ''REQ1'' # rest \<and>
      (\<forall>c \<in> set pre. gateCall c))"
proof -
  have d: "deniedBy example_env example_open_app example_decoded = None"
    by (simp add: deniedBy_def example_client_ip example_open_gates)
  have n: "nextTx example_open_app = 1"
    by (simp add: example_open_app_def example_app_def)
  show ?thesis
    using id_written_iff_no_gate_denies [OF decode_example_open example_open_handle]
    by (simp add: d n example_fields)
qed


section \<open>Finalization under concurrency\<close>

text \<open>
  \<open>closes h a a'\<close>: from \<open>a\<close> to \<open>a'\<close> quiet calls were made and then, last, the logging hook
  and \<open>Close\<close> of the transaction \<open>h\<close>, once each.
\<close>

definition closes :: "txh \<Rightarrow> Application \<Rightarrow> Application \<Rightarrow> bool" where
  "closes h a a' \<longleftrightarrow>
     (\<exists>new. calls a' = calls a @ new @ [ProcessLogging h, Close h] \<and> list_all quiet new) \<and>
     nextTx a' = nextTx a \<and> txs a' = txs a \<and> cache a' = cache a \<and> nextTref a' = nextTref a"

lemma extends_closes: "extends quiet a b \<Longrightarrow> closes h b c \<Longrightarrow> closes h a c"
  by (auto simp: extends_def closes_def)

lemma closes_logAndClose: "closes h a (logAndClose e a h)"
  by (simp add: closes_def logAndClose_def Let_def call_def logMsg_def split: option.splits)

lemma closes_evictionRun: "closes (tx (txs a t)) a (evictionRun e a t)"
  by (simp add: closes_def evictionRun_def Let_def call_def logMsg_def split: option.splits)

lemma closes_finalize:
  assumes "finalize e a h req realIP = Some a'"
  shows "closes h a a'"
proof (cases "on_IsInterrupted e (calls a) h \<and> logStore a \<noteq> None")
  case False
  with assms have "a' = logAndClose e a h"
    by (auto simp: finalize_def)
  then show ?thesis by (simp add: closes_logAndClose)
next
  case True
  define a1 where "a1 = (if flowController a then call a (RecordAttack realIP) else a)"
  have e1: "extends quiet a a1"
    by (simp add: a1_def extends_call extends_refl)
  define it where "it = on_Interruption e (calls a1) h"
  define mr where "mr = on_MatchedRules e (calls a1) h"
  have f: "finalize e a h req realIP =
      (case req of
         Some r \<Rightarrow>
           if length mr > 0 then
             (case saveFirewallLog a1 mr it r (Headers r) of
                None \<Rightarrow> None
              | Some (None, a2) \<Rightarrow> Some (logAndClose e a2 h)
              | Some (Some _, a2) \<Rightarrow> Some (logAndClose e (logMsg a2 Error ''failed to save firewall log'') h))
           else Some (logAndClose e a1 h)
       | None \<Rightarrow> Some (logAndClose e a1 h))"
    by (simp only: finalize_def Let_def a1_def it_def mr_def True simp_thms if_True)
  show ?thesis
  proof (cases "\<exists>r. req = Some r \<and> length mr > 0")
    case False
    with f assms have "a' = logAndClose e a1 h"
      by (cases req) auto
    with e1 show ?thesis
      by (auto intro: extends_closes closes_logAndClose)
  next
    case saved: True
    then obtain r where r: "req = Some r" "length mr > 0" by auto
    with f assms obtain sr a2 where
      s: "saveFirewallLog a1 mr it r (Headers r) = Some (sr, a2)"
      by (cases "saveFirewallLog a1 mr it r (Headers r)") auto
    then have "extends quiet a1 a2"
      by (auto simp: saveFirewallLog_def dest: extends_storeLog)
    with e1 have e2: "extends quiet a a2" by (rule extends_trans)
    then have e3: "extends quiet a (logMsg a2 Error ''failed to save firewall log'')"
      using extends_logMsg by (rule extends_trans)
    from f assms r s have
      "a' = logAndClose e a2 h \<or> a' = logAndClose e (logMsg a2 Error ''failed to save firewall log'') h"
      by (cases sr) auto
    with e2 e3 show ?thesis
      by (auto intro: extends_closes closes_logAndClose)
  qed
qed

lemma extends_addHeaders:
  assumes "\<And>k v. P (f k v)"
  shows "extends P a (foldl (\<lambda>s (k, v). call s (f k v)) a hdrs)"
proof (induction hdrs arbitrary: a)
  case Nil
  show ?case by (simp add: extends_refl)
next
  case (Cons x hdrs)
  obtain k v where x: "x = (k, v)" by (cases x) auto
  have "extends P a (call a (f k v))"
    using assms by (rule extends_call)
  with Cons [of "call a (f k v)"] show ?case
    by (simp add: x) (rule extends_trans)
qed

lemma extends_requestBody:
  "requestBody e a h req = (err, a') \<Longrightarrow> extends quiet a a'"
  by (auto simp: requestBody_def Let_def extends_def call_def split: option.splits)

lemma extends_responseBody:
  "responseBody e a h res = (err, a') \<Longrightarrow> extends quiet a a'"
  by (auto simp: responseBody_def Let_def extends_def call_def split: option.splits)

lemma extends_requestPhases:
  assumes "requestPhases e a h req = (err, a')"
  shows "extends quiet a a'"
proof -
  define a1 where "a1 = call a (SetString ''id'' (ID req))"
  define a2 where "a2 = call a1 (IsRuleEngineOff h)"
  define a3 where "a3 = call a2 (ProcessConnection h (AddrString (SrcIp req)) (SrcPort req)
      (AddrString (DstIp req)) (DstPort req))"
  define a4 where "a4 = call a3 (ProcessURI h (requestURL req) (Method req) (''HTTP/'' @ Version req))"
  obtain hdrs er where rh: "readHeaders (Headers req) = (hdrs, er)"
    by (cases "readHeaders (Headers req)") auto
  define a5 where "a5 = foldl (\<lambda>s (k, v). call s (AddRequestHeader h k v)) a4 hdrs"
  define a6 where "a6 = call a5 (ProcessRequestHeaders h)"
  have e1: "extends quiet a a1" by (simp add: a1_def extends_call)
  have e2: "extends quiet a a2" using e1 by (rule extends_trans) (simp add: a2_def extends_call)
  have e3: "extends quiet a a3" using e2 by (rule extends_trans) (simp add: a3_def extends_call)
  have e4: "extends quiet a a4" using e3 by (rule extends_trans) (simp add: a4_def extends_call)
  have e5: "extends quiet a a5" using e4 by (rule extends_trans) (simp add: a5_def extends_addHeaders)
  have e6: "extends quiet a a6" using e5 by (rule extends_trans) (simp add: a6_def extends_call)
  have e2': "extends quiet a (logMsg a2 Warn ''Rule engine is Off, Coraza is not going to process any rule'')"
    using e2 extends_logMsg by (rule extends_trans)
  have p: "requestPhases e a h req =
      (case on_SetString e (calls a1) of
         Some er' \<Rightarrow> (Some (Errorf er'), a1)
       | None \<Rightarrow>
           if on_IsRuleEngineOff e (calls a2)
           then (None, logMsg a2 Warn ''Rule engine is Off, Coraza is not going to process any rule'')
           else (case er of
                   Some msg \<Rightarrow> (Some (Errorf (''reading headers: '' @ msg)), a5)
                 | None \<Rightarrow>
                     (case on_ProcessHeaders e (calls a6) of
                        Some it \<Rightarrow> (Some (ErrInterrupted it), a6)
                      | None \<Rightarrow> requestBody e a6 h req)))"
    by (simp only: requestPhases_def Let_def rh a1_def a2_def a3_def a4_def a5_def a6_def prod.case)
  from assms p have "a' = a1 \<or> a' = logMsg a2 Warn ''Rule engine is Off, Coraza is not going to process any rule''
      \<or> a' = a5 \<or> a' = a6 \<or> requestBody e a6 h req = (err, a')"
    by (auto split: option.splits if_splits)
  with e1 e2' e5 e6 show ?thesis
    by (auto dest!: extends_requestBody intro: extends_trans)
qed

lemma extends_responsePhases:
  assumes "responsePhases e a h res = (err, a')"
  shows "extends quiet a a'"
proof -
  define a1 where "a1 = call a (IsRuleEngineOff h)"
  obtain hdrs er where rh: "readHeaders (ResHeaders res) = (hdrs, er)"
    by (cases "readHeaders (ResHeaders res)") auto
  define a2 where "a2 = foldl (\<lambda>s (k, v). call s (AddResponseHeader h k v)) a1 hdrs"
  define a3 where "a3 = call a2 (ProcessResponseHeaders h (ResStatus res) (''HTTP/'' @ ResVersion res))"
  have e1: "extends quiet a a1" by (simp add: a1_def extends_call)
  have e2: "extends quiet a a2" using e1 by (rule extends_trans) (simp add: a2_def extends_addHeaders)
  have e3: "extends quiet a a3" using e2 by (rule extends_trans) (simp add: a3_def extends_call)
  have p: "responsePhases e a h res =
      (if on_IsRuleEngineOff e (calls a1) then (None, a1)
       else (case er of
               Some msg \<Rightarrow> (Some (Errorf (''reading headers: '' @ msg)), a2)
             | None \<Rightarrow>
                 (case on_ProcessHeaders e (calls a3) of
                    Some it \<Rightarrow> (Some (ErrInterrupted it), a3)
                  | None \<Rightarrow> responseBody e a3 h res)))"
    by (simp only: responsePhases_def Let_def rh a1_def a2_def a3_def prod.case)
  from assms p have "a' = a1 \<or> a' = a2 \<or> a' = a3 \<or> responseBody e a3 h res = (err, a')"
    by (auto split: option.splits if_splits)
  with e1 e2 e3 show ?thesis
    by (auto dest!: extends_responseBody intro: extends_trans)
qed

lemma closes_processResponse:
  assumes "processResponse e a t res = Some (err, a')"
  shows "closes (tx (txs a t)) a a'"
proof -
  define h where "h = tx (txs a t)"
  define realIP where "realIP = getRealClientIP (request (txs a t))"
  define a1 where "a1 = (if ResStatus res \<ge> 400 \<and> flowController a then call a (RecordError realIP) else a)"
  obtain er a2 where p: "responsePhases e a1 h res = (er, a2)"
    by (cases "responsePhases e a1 h res") auto
  have e1: "extends quiet a a1"
    by (simp add: a1_def extends_call extends_refl)
  from extends_responsePhases [OF p] e1 have e2: "extends quiet a a2"
    by (auto intro: extends_trans)
  have "processResponse e a t res =
      (case finalize e a2 h (request (txs a t)) realIP of
         None \<Rightarrow> None
       | Some a3 \<Rightarrow> Some (er, a3))"
    using p by (simp only: processResponse_def Let_def h_def realIP_def a1_def prod.case)
  with assms have "finalize e a2 h (request (txs a t)) realIP = Some a'"
    by (auto split: option.splits)
  then have "closes h a2 a'" by (rule closes_finalize)
  with e2 show ?thesis
    unfolding h_def by (rule extends_closes)
qed



text \<open>
  \<open>opened a b\<close>: from \<open>a\<close> to \<open>b\<close> quiet calls were made and one transaction handle, the
  next free one, was allocated.
\<close>

definition opened :: "Application \<Rightarrow> Application \<Rightarrow> bool" where
  "opened a b \<longleftrightarrow>
     (\<exists>new. calls b = calls a @ new \<and> list_all quiet new) \<and>
     nextTx b = Suc (nextTx a) \<and> txs b = txs a \<and> cache b = cache a \<and> nextTref b = nextTref a"

definition cached :: "Application \<Rightarrow> txh \<Rightarrow> applicationRequest \<Rightarrow> Application" where
  "cached b h req =
     b\<lparr>txs := (txs b)(nextTref b := \<lparr>tx = h, m = False, request = Some req\<rparr>),
       nextTref := Suc (nextTref b),
       cache := (cache b)(ID req \<mapsto> nextTref b)\<rparr>"

lemma quiet_NewTransactionWithID: "quiet (NewTransactionWithID h i)"
  by simp

lemma opened_openAndProcess:
  assumes "openAndProcess e a req realIP = Some (err, a')"
  shows "\<exists>b. opened a b \<and> (closes (nextTx a) b a' \<or> a' = cached b (nextTx a) req)"
proof -
  define a1 where "a1 = call (a\<lparr>nextTx := Suc (nextTx a)\<rparr>) (NewTransactionWithID (nextTx a) (ID req))"
  obtain er a2 where p: "requestPhases e a1 (nextTx a) req = (er, a2)"
    by (cases "requestPhases e a1 (nextTx a) req") auto
  have o1: "opened a a1"
    by (simp add: opened_def a1_def call_def)
  from extends_requestPhases [OF p] o1 have o2: "opened a a2"
    by (auto simp: opened_def extends_def)
  have "openAndProcess e a req realIP = afterRequest e a2 (nextTx a) req realIP er"
    using p by (simp only: openAndProcess_def Let_def a1_def prod.case)
  with assms have r: "afterRequest e a2 (nextTx a) req realIP er = Some (err, a')"
    by simp
  show ?thesis
  proof (cases "er = None \<and> ResponseCheck a2")
    case True
    with r have "a' = cached a2 (nextTx a) req"
      by (simp add: afterRequest_def cached_def Let_def)
    with o2 show ?thesis by blast
  next
    case False
    with r have "finalize e a2 (nextTx a) (Some req) realIP = Some a'"
      by (auto simp: afterRequest_def split: option.splits)
    then have "closes (nextTx a) a2 a'" by (rule closes_finalize)
    with o2 show ?thesis by blast
  qed
qed

lemma effect_HandleRequest:
  assumes "HandleRequest e a message = Some (err, a')"
  shows "extends quiet a a' \<or>
         (\<exists>b. opened a b \<and> (closes (nextTx a) b a' \<or> (\<exists>req. a' = cached b (nextTx a) req)))"
proof -
  obtain req a1 where d: "decodeRequest e a message = (req, a1)"
    by (cases "decodeRequest e a message") auto
  then obtain lg where a1: "a1 = a\<lparr>Logger := lg\<rparr>"
    by (auto simp: decodeRequest_def split: prod.splits)
  then have e1: "extends quiet a a1"
    by (simp add: extends_def)
  let ?ip = "getRealClientIP (Some req)"
  from assms d obtain r where g: "gates e a1 req ?ip = Some r"
    by (cases "gates e a1 req ?ip") (auto simp: HandleRequest_def)
  have e2: "extends quiet a (case r of Inl (_, _, a2) \<Rightarrow> a2 | Inr a2 \<Rightarrow> a2)"
    using e1 by (rule extends_trans) (rule extends_mono [OF gated_gates [OF g] gateCall_quiet])
  show ?thesis
  proof (cases r)
    case (Inl x)
    obtain gt er a2 where x: "x = (gt, er, a2)" by (cases x) auto
    with assms d g Inl have "a' = a2" by (simp add: HandleRequest_def)
    with e2 Inl x show ?thesis by simp
  next
    case (Inr a2)
    with assms d g have "openAndProcess e a2 req ?ip = Some (err, a')"
      by (simp add: HandleRequest_def)
    from opened_openAndProcess [OF this] obtain b where
      b: "opened a2 b" "closes (nextTx a2) b a' \<or> a' = cached b (nextTx a2) req"
      by blast
    from e2 Inr have e3: "extends quiet a a2" by simp
    with b(1) have "opened a b"
      by (auto simp: opened_def extends_def)
    moreover from e3 have "nextTx a2 = nextTx a"
      by (simp add: extends_def)
    ultimately show ?thesis using b(2) by auto
  qed
qed

subsection \<open>Counting the finalizations\<close>

definition loggings :: "Application \<Rightarrow> txh \<Rightarrow> nat" where
  "loggings a h = count_list (calls a) (ProcessLogging h)"

definition closings :: "Application \<Rightarrow> txh \<Rightarrow> nat" where
  "closings a h = count_list (calls a) (Close h)"

lemma count_quiet:
  "list_all quiet new \<Longrightarrow> count_list new (Close h) = 0 \<and> count_list new (ProcessLogging h) = 0"
  by (induction new) auto

lemma extends_count:
  assumes "extends quiet a a'"
  shows "closings a' h = closings a h" "loggings a' h = loggings a h"
  using assms count_quiet by (auto simp: extends_def closings_def loggings_def)

lemma opened_count:
  assumes "opened a b"
  shows "closings b h = closings a h" "loggings b h = loggings a h"
  using assms count_quiet by (auto simp: opened_def closings_def loggings_def)

lemma closes_count:
  assumes "closes h a a'"
  shows "closings a' k = closings a k + (if k = h then 1 else 0)"
    "loggings a' k = loggings a k + (if k = h then 1 else 0)"
  using assms count_quiet by (auto simp: closes_def closings_def loggings_def)

subsection \<open>Who holds a lock\<close>

fun owns :: "tref \<Rightarrow> task \<Rightarrow> bool" where
  "owns t (Resp_Owns _ u) = (u = t)"
| "owns t (Evict_Owns u) = (u = t)"
| "owns _ _ = False"

fun refers :: "task \<Rightarrow> tref option" where
  "refers (Resp_Get _) = None"
| "refers (Resp_Remove _ t) = Some t"
| "refers (Resp_TryLock _ t) = Some t"
| "refers (Resp_Owns _ t) = Some t"
| "refers (Evict_TryLock t) = Some t"
| "refers (Evict_Owns t) = Some t"
| "refers Returned = None"

definition owners :: "task multiset \<Rightarrow> tref \<Rightarrow> nat" where
  "owners T t = size (filter_mset (owns t) T)"

definition refs_ok :: "Application \<Rightarrow> task multiset \<Rightarrow> bool" where
  "refs_ok a T \<longleftrightarrow> (\<forall>x \<in># T. \<forall>t. refers x = Some t \<longrightarrow> t < nextTref a)"

lemma owns_refers: "owns t x \<Longrightarrow> refers x = Some t"
  by (cases x) auto

lemma owners_empty [simp]: "owners {#} t = 0"
  by (simp add: owners_def)

lemma owners_add: "owners (add_mset x T) t = owners T t + (if owns t x then 1 else 0)"
  by (simp add: owners_def)

lemma owners_remove:
  assumes "y \<in># T"
  shows "owners (T - {#y#}) t + (if owns t y then 1 else 0) = owners T t"
proof -
  from assms obtain U where "T = add_mset y U"
    by (meson mset_add)
  then show ?thesis by (simp add: owners_def)
qed

lemma owners_swap:
  assumes "y \<in># T"
  shows "owners (add_mset x (T - {#y#})) t + (if owns t y then 1 else 0) =
         owners T t + (if owns t x then 1 else 0)"
  using owners_remove [OF assms, of t] by (simp add: owners_add)

lemma owners_none:
  assumes "refs_ok a T" and "\<not> t < nextTref a"
  shows "owners T t = 0"
proof -
  have "\<not> owns t x" if "x \<in># T" for x
    using assms that owns_refers [of t x] by (auto simp: refs_ok_def)
  then have "filter_mset (owns t) T = {#}"
    by simp
  then show ?thesis by (simp add: owners_def)
qed

lemma refs_ok_add: "refs_ok a T \<Longrightarrow> (\<And>t. refers x = Some t \<Longrightarrow> t < nextTref a) \<Longrightarrow> refs_ok a (add_mset x T)"
  by (auto simp: refs_ok_def)

lemma refs_ok_remove: "refs_ok a T \<Longrightarrow> refs_ok a (T - {#y#})"
  by (auto simp: refs_ok_def dest: in_diffD)

lemma refs_ok_swap:
  "refs_ok a T \<Longrightarrow> (\<And>t. refers x = Some t \<Longrightarrow> t < nextTref a) \<Longrightarrow> refs_ok a (add_mset x (T - {#y#}))"
  by (intro refs_ok_add refs_ok_remove)

lemma refs_ok_cong: "refs_ok a T \<Longrightarrow> nextTref a' = nextTref a \<Longrightarrow> refs_ok a' T"
  by (simp add: refs_ok_def)



subsection \<open>The invariant\<close>

text \<open>
  In every state that the system reaches:
  \<^item> a cached transaction has a handle that was allocated, and no two have the same;
  \<^item> for a cached transaction, the number of its \<open>Close\<close> calls and the number of tasks
    that hold its lock and have the finalization ahead add to at most one, and to zero
    while the lock is free;
  \<^item> a handle had the logging hook as often as \<open>Close\<close>;
  \<^item> a handle not yet allocated was never closed;
  \<^item> tasks and cache entries refer to transactions that were cached.
\<close>

definition guarded :: "Application \<times> task multiset \<Rightarrow> bool" where
  "guarded c \<longleftrightarrow>
     (case c of (a, T) \<Rightarrow>
        (\<forall>t < nextTref a. tx (txs a t) < nextTx a) \<and>
        inj_on (\<lambda>t. tx (txs a t)) {..<nextTref a} \<and>
        (\<forall>t < nextTref a. closings a (tx (txs a t)) + owners T t \<le> (if m (txs a t) then 1 else 0)) \<and>
        (\<forall>h. loggings a h = closings a h) \<and>
        (\<forall>h \<ge> nextTx a. closings a h = 0) \<and>
        refs_ok a T \<and>
        (\<forall>k t. cache a k = Some t \<longrightarrow> t < nextTref a))"

lemma guardedI:
  assumes "\<And>t. t < nextTref a \<Longrightarrow> tx (txs a t) < nextTx a"
      and "inj_on (\<lambda>t. tx (txs a t)) {..<nextTref a}"
      and "\<And>t. t < nextTref a \<Longrightarrow> closings a (tx (txs a t)) + owners T t \<le> (if m (txs a t) then 1 else 0)"
      and "\<And>h. loggings a h = closings a h"
      and "\<And>h. nextTx a \<le> h \<Longrightarrow> closings a h = 0"
      and "refs_ok a T"
      and "\<And>k t. cache a k = Some t \<Longrightarrow> t < nextTref a"
  shows "guarded (a, T)"
  using assms unfolding guarded_def by simp

lemma guardedD:
  assumes "guarded (a, T)"
  shows "t < nextTref a \<Longrightarrow> tx (txs a t) < nextTx a"
    and "inj_on (\<lambda>t. tx (txs a t)) {..<nextTref a}"
    and "t < nextTref a \<Longrightarrow> closings a (tx (txs a t)) + owners T t \<le> (if m (txs a t) then 1 else 0)"
    and "loggings a h = closings a h"
    and "nextTx a \<le> h \<Longrightarrow> closings a h = 0"
    and "refs_ok a T"
    and "cache a k = Some t \<Longrightarrow> t < nextTref a"
  using assms unfolding guarded_def by simp_all

lemma guarded_initial: "initial a \<Longrightarrow> guarded (a, {#})"
  by (rule guardedI) (simp_all add: initial_def closings_def loggings_def refs_ok_def)

text \<open>The tasks change, the state does not, and nobody gains a lock.\<close>

lemma guarded_tasks:
  assumes g: "guarded (a, T)"
      and o: "\<And>t. owners U t \<le> owners T t"
      and r: "refs_ok a U"
  shows "guarded (a, U)"
proof (rule guardedI)
  fix t assume "t < nextTref a"
  from guardedD(3) [OF g this] o [of t]
  show "closings a (tx (txs a t)) + owners U t \<le> (if m (txs a t) then 1 else 0)"
    by simp
qed (use guardedD [OF g] r in auto)

text \<open>Quiet calls, with everything else in place.\<close>

lemma guarded_extends:
  assumes g: "guarded (a, T)" and e: "extends quiet a a'"
  shows "guarded (a', T)"
proof -
  from e have s: "nextTx a' = nextTx a" "txs a' = txs a" "cache a' = cache a" "nextTref a' = nextTref a"
    by (simp_all add: extends_def)
  note c = extends_count [OF e]
  show ?thesis
    using guardedD [OF g] by (intro guardedI) (simp_all add: s c refs_ok_def)
qed

text \<open>An entry leaves the cache.\<close>

lemma guarded_uncache:
  assumes g: "guarded (a, T)"
  shows "guarded (a\<lparr>cache := (cache a)(k := None)\<rparr>, T)"
  using guardedD [OF g]
  by (intro guardedI) (simp_all add: closings_def loggings_def refs_ok_def split: if_splits)

text \<open>A task takes the free lock of a cached transaction.\<close>

lemma guarded_lock:
  assumes g: "guarded (a, T)"
      and t: "t < nextTref a" and free: "\<not> m (txs a t)"
      and o: "owners U t \<le> Suc (owners T t)" "\<And>u. u \<noteq> t \<Longrightarrow> owners U u \<le> owners T u"
      and r: "refs_ok a U"
  shows "guarded (a\<lparr>txs := (txs a)(t := (txs a t)\<lparr>m := True\<rparr>)\<rparr>, U)"
proof -
  let ?a = "a\<lparr>txs := (txs a)(t := (txs a t)\<lparr>m := True\<rparr>)\<rparr>"
  have h: "(\<lambda>u. tx (txs ?a u)) = (\<lambda>u. tx (txs a u))"
    by (rule ext) simp
  have c: "closings ?a k = closings a k" "loggings ?a k = loggings a k" for k
    by (simp_all add: closings_def loggings_def)
  show ?thesis
  proof (rule guardedI)
    fix u assume u: "u < nextTref ?a"
    then have u': "u < nextTref a" by simp
    show "closings ?a (tx (txs ?a u)) + owners U u \<le> (if m (txs ?a u) then 1 else 0)"
    proof (cases "u = t")
      case True
      from guardedD(3) [OF g t] free have "closings a (tx (txs a t)) + owners T t = 0"
        by simp
      with o(1) True show ?thesis by (simp add: c)
    next
      case False
      with guardedD(3) [OF g u'] o(2) [of u] show ?thesis
        by (simp add: c)
    qed
  next
    show "inj_on (\<lambda>u. tx (txs ?a u)) {..<nextTref ?a}"
      unfolding h using guardedD(2) [OF g] by simp
  next
    show "refs_ok ?a U"
      using r by (simp add: refs_ok_def)
  qed (use guardedD [OF g] in \<open>simp_all add: c\<close>)
qed

text \<open>A task that holds the lock of a cached transaction finalizes it and returns.\<close>

lemma guarded_closes:
  assumes g: "guarded (a, T)"
      and t: "t < nextTref a"
      and cl: "closes (tx (txs a t)) a a'"
      and o: "Suc (owners U t) \<le> owners T t" "\<And>u. u \<noteq> t \<Longrightarrow> owners U u \<le> owners T u"
      and r: "refs_ok a U"
  shows "guarded (a', U)"
proof -
  from cl have s: "nextTx a' = nextTx a" "txs a' = txs a" "cache a' = cache a" "nextTref a' = nextTref a"
    by (simp_all add: closes_def)
  note c = closes_count [OF cl]
  show ?thesis
  proof (rule guardedI)
    fix u assume "u < nextTref a'"
    then have u: "u < nextTref a" by (simp add: s)
    show "closings a' (tx (txs a' u)) + owners U u \<le> (if m (txs a' u) then 1 else 0)"
    proof (cases "u = t")
      case True
      from guardedD(3) [OF g t] o(1) have "closings a (tx (txs a t)) = 0" "m (txs a t)" "owners U t = 0"
        by (auto split: if_splits)
      with True show ?thesis by (simp add: s c)
    next
      case False
      from guardedD(2) [OF g] u t False have "tx (txs a u) \<noteq> tx (txs a t)"
        by (auto simp: inj_on_def)
      with guardedD(3) [OF g u] o(2) [OF False] show ?thesis
        by (simp add: s c)
    qed
  next
    fix h assume "nextTx a' \<le> h"
    then have h: "nextTx a \<le> h" by (simp add: s)
    with guardedD(1) [OF g t] have "h \<noteq> tx (txs a t)" by simp
    with guardedD(5) [OF g h] show "closings a' h = 0" by (simp add: c)
  next
    show "refs_ok a' U"
      using r by (simp add: refs_ok_def s)
  qed (use guardedD [OF g] in \<open>simp_all add: s c\<close>)
qed

text \<open>
  A handle is \<open>fresh\<close> when it was allocated, no cached transaction has it and it was not
  closed: the state of a request handler between \<open>NewTransactionWithID\<close> and its deferred
  function.
\<close>

definition fresh :: "Application \<Rightarrow> txh \<Rightarrow> bool" where
  "fresh b h \<longleftrightarrow> h < nextTx b \<and> closings b h = 0 \<and> (\<forall>t < nextTref b. tx (txs b t) \<noteq> h)"

lemma guarded_opened:
  assumes g: "guarded (a, T)" and op: "opened a b"
  shows "guarded (b, T)" "fresh b (nextTx a)"
proof -
  from op have s: "nextTx b = Suc (nextTx a)" "txs b = txs a" "cache b = cache a" "nextTref b = nextTref a"
    by (simp_all add: opened_def)
  note c = opened_count [OF op]
  have lt: "tx (txs a t) < nextTx a" if "t < nextTref a" for t
    using guardedD(1) [OF g that] .
  show "guarded (b, T)"
  proof (rule guardedI)
    fix t assume "t < nextTref b"
    then show "tx (txs b t) < nextTx b"
      using lt [of t] by (simp add: s)
  next
    fix h assume "nextTx b \<le> h"
    then have "nextTx a \<le> h" by (simp add: s)
    with guardedD(5) [OF g] show "closings b h = 0" by (simp add: c)
  next
    show "refs_ok b T"
      using guardedD(6) [OF g] by (simp add: refs_ok_def s)
  qed (use guardedD [OF g] in \<open>simp_all add: s c\<close>)
  have "tx (txs a t) \<noteq> nextTx a" if "t < nextTref a" for t
    using lt [OF that] by simp
  with guardedD(5) [OF g, of "nextTx a"] show "fresh b (nextTx a)"
    by (simp add: fresh_def s c)
qed

text \<open>The request handler finalizes the transaction that it opened itself.\<close>

lemma guarded_fresh_closes:
  assumes g: "guarded (b, T)" and f: "fresh b h" and cl: "closes h b a'"
  shows "guarded (a', T)"
proof -
  from cl have s: "nextTx a' = nextTx b" "txs a' = txs b" "cache a' = cache b" "nextTref a' = nextTref b"
    by (simp_all add: closes_def)
  note c = closes_count [OF cl]
  show ?thesis
  proof (rule guardedI)
    fix t assume "t < nextTref a'"
    then have t: "t < nextTref b" by (simp add: s)
    with f have "tx (txs b t) \<noteq> h" by (simp add: fresh_def)
    with guardedD(3) [OF g t]
    show "closings a' (tx (txs a' t)) + owners T t \<le> (if m (txs a' t) then 1 else 0)"
      by (simp add: s c)
  next
    fix k assume "nextTx a' \<le> k"
    then have k: "nextTx b \<le> k" by (simp add: s)
    with f have "k \<noteq> h" by (auto simp: fresh_def)
    with guardedD(5) [OF g k] show "closings a' k = 0" by (simp add: c)
  next
    show "refs_ok a' T"
      using guardedD(6) [OF g] by (simp add: refs_ok_def s)
  qed (use guardedD [OF g] in \<open>simp_all add: s c\<close>)
qed

text \<open>The request handler caches the transaction that it opened, with the lock free.\<close>

lemma guarded_cached:
  assumes g: "guarded (b, T)" and f: "fresh b h"
  shows "guarded (cached b h req, T)"
proof -
  let ?n = "nextTref b"
  let ?a = "cached b h req"
  have s: "nextTx ?a = nextTx b" "nextTref ?a = Suc ?n"
    "tx (txs ?a t) = (if t = ?n then h else tx (txs b t))"
    "m (txs ?a t) = (if t = ?n then False else m (txs b t))"
    "closings ?a k = closings b k" "loggings ?a k = loggings b k" for t k
    by (simp_all add: cached_def closings_def loggings_def)
  from f have f': "h < nextTx b" "closings b h = 0" "\<And>t. t < ?n \<Longrightarrow> tx (txs b t) \<noteq> h"
    by (simp_all add: fresh_def)
  show ?thesis
  proof (rule guardedI)
    fix t assume "t < nextTref ?a"
    then show "tx (txs ?a t) < nextTx ?a"
      using guardedD(1) [OF g, of t] f'(1) by (auto simp: s less_Suc_eq)
  next
    show "inj_on (\<lambda>t. tx (txs ?a t)) {..<nextTref ?a}"
      unfolding inj_on_def
    proof (intro ballI impI)
      fix t u
      assume t: "t \<in> {..<nextTref ?a}" and u: "u \<in> {..<nextTref ?a}"
        and eq: "tx (txs ?a t) = tx (txs ?a u)"
      show "t = u"
      proof (cases "t = ?n \<or> u = ?n")
        case True
        with t u eq f'(3) [of t] f'(3) [of u] show ?thesis
          by (auto simp: s less_Suc_eq split: if_splits)
      next
        case False
        with t u eq guardedD(2) [OF g] show ?thesis
          by (auto simp: s less_Suc_eq inj_on_def)
      qed
    qed
  next
    fix t assume t: "t < nextTref ?a"
    show "closings ?a (tx (txs ?a t)) + owners T t \<le> (if m (txs ?a t) then 1 else 0)"
    proof (cases "t = ?n")
      case True
      with owners_none [OF guardedD(6) [OF g], of ?n] f'(2) show ?thesis
        by (simp add: s)
    next
      case False
      with t have "t < ?n" by (simp add: s)
      from guardedD(3) [OF g this] False show ?thesis
        by (simp add: s)
    qed
  next
    fix k assume "nextTx ?a \<le> k"
    with guardedD(5) [OF g, of k] show "closings ?a k = 0" by (simp add: s)
  next
    show "refs_ok ?a T"
      using guardedD(6) [OF g] by (auto simp: refs_ok_def s less_Suc_eq)
  next
    fix k t assume "cache ?a k = Some t"
    then show "t < nextTref ?a"
      using guardedD(7) [OF g, of k t] by (auto simp: cached_def less_Suc_eq split: if_splits)
  qed (use guardedD [OF g] in \<open>simp_all add: s\<close>)
qed


lemma guarded_spawn:
  assumes g: "guarded (a, T)"
      and x: "\<And>t. \<not> owns t x" "\<And>t. refers x = Some t \<Longrightarrow> t < nextTref a"
  shows "guarded (a, add_mset x T)"
  using g
proof (rule guarded_tasks)
  show "owners (add_mset x T) t \<le> owners T t" for t
    by (simp add: owners_add x(1))
  show "refs_ok a (add_mset x T)"
    using guardedD(6) [OF g] x(2) by (rule refs_ok_add)
qed

lemma guarded_swap:
  assumes g: "guarded (a, T)" and y: "y \<in># T"
      and x: "\<And>t. \<not> owns t x" "\<And>t. refers x = Some t \<Longrightarrow> t < nextTref a"
  shows "guarded (a, add_mset x (T - {#y#}))"
  using g
proof (rule guarded_tasks)
  show "owners (add_mset x (T - {#y#})) t \<le> owners T t" for t
    using owners_swap [OF y, of x t] by (simp add: x(1))
  show "refs_ok a (add_mset x (T - {#y#}))"
    using guardedD(6) [OF g] x(2) by (rule refs_ok_swap)
qed

lemma guarded_refers:
  assumes "guarded (a, T)" and "y \<in># T" and "refers y = Some t"
  shows "t < nextTref a"
  using guardedD(6) [OF assms(1)] assms(2,3) by (auto simp: refs_ok_def)

lemma guarded_acquire:
  assumes g: "guarded (a, T)" and y: "y \<in># T" and ry: "refers y = Some t" and ny: "\<And>u. \<not> owns u y"
      and l: "TryLock (m (txs a t)) = (True, locked)"
      and x: "refers x = Some t"
  shows "guarded (a\<lparr>txs := (txs a)(t := (txs a t)\<lparr>m := locked\<rparr>)\<rparr>, add_mset x (T - {#y#}))"
proof -
  from l have free: "\<not> m (txs a t)" and lk: "locked = True"
    by (auto simp: TryLock_def)
  have t: "t < nextTref a"
    using g y ry by (rule guarded_refers)
  have o: "owners (add_mset x (T - {#y#})) u = owners T u + (if owns u x then 1 else 0)" for u
    using owners_swap [OF y, of x u] by (simp add: ny)
  have ox: "\<not> owns u x" if "u \<noteq> t" for u
    using owns_refers [of u x] x that by auto
  have "guarded (a\<lparr>txs := (txs a)(t := (txs a t)\<lparr>m := True\<rparr>)\<rparr>, add_mset x (T - {#y#}))"
    using g t free
  proof (rule guarded_lock)
    show "owners (add_mset x (T - {#y#})) t \<le> Suc (owners T t)"
      by (simp add: o)
    show "owners (add_mset x (T - {#y#})) u \<le> owners T u" if "u \<noteq> t" for u
      by (simp add: o ox [OF that])
    show "refs_ok a (add_mset x (T - {#y#}))"
      using guardedD(6) [OF g] by (rule refs_ok_swap) (use x t in simp)
  qed
  then show ?thesis by (simp add: lk)
qed

lemma guarded_release:
  assumes g: "guarded (a, T)" and y: "y \<in># T" and oy: "owns t y"
      and cl: "closes (tx (txs a t)) a a'"
  shows "guarded (a', add_mset Returned (T - {#y#}))"
proof -
  have t: "t < nextTref a"
    using g y owns_refers [OF oy] by (rule guarded_refers)
  have o: "owners (add_mset Returned (T - {#y#})) u + (if owns u y then 1 else 0) = owners T u" for u
    using owners_swap [OF y, of Returned u] by simp
  have oy': "\<not> owns u y" if "u \<noteq> t" for u
    using owns_refers [of u y] owns_refers [OF oy] that by auto
  show ?thesis
    using g t cl
  proof (rule guarded_closes)
    show "Suc (owners (add_mset Returned (T - {#y#})) t) \<le> owners T t"
      using o [of t] oy by simp
    show "owners (add_mset Returned (T - {#y#})) u \<le> owners T u" if "u \<noteq> t" for u
      using o [of u] oy' [OF that] by simp
    show "refs_ok a (add_mset Returned (T - {#y#}))"
      using guardedD(6) [OF g] by (rule refs_ok_swap) simp
  qed
qed

lemma guarded_request:
  assumes g: "guarded (a, T)" and h: "HandleRequest e a message = Some (err, a')"
  shows "guarded (a', T)"
proof -
  from effect_HandleRequest [OF h] consider
      "extends quiet a a'"
    | b where "opened a b" "closes (nextTx a) b a'"
    | b req where "opened a b" "a' = cached b (nextTx a) req"
    by blast
  then show ?thesis
  proof cases
    case 1
    with g show ?thesis by (rule guarded_extends)
  next
    case 2
    from guarded_opened [OF g 2(1)] 2(2) show ?thesis
      by (rule guarded_fresh_closes)
  next
    case 3
    from guarded_opened [OF g 3(1)] have "guarded (cached b (nextTx a) req, T)"
      by (rule guarded_cached)
    with 3(2) show ?thesis by simp
  qed
qed

lemma guarded_step:
  assumes "step e c c'" and "guarded c"
  shows "guarded c'"
  using assms
proof (induction rule: step.induct)
  case (request a message err a' T)
  then show ?case by (auto intro: guarded_request)
next
  case (response a message res lg T)
  from response(4) have "guarded (a\<lparr>Logger := lg\<rparr>, T)"
    by (rule guarded_extends) (simp add: extends_def)
  then show ?case
    by (rule guarded_spawn) simp_all
next
  case (get_miss res T a)
  from get_miss(3) have "guarded (logMsg a Error ''transaction not found'', T)"
    by (rule guarded_extends) (rule extends_logMsg)
  then show ?case
    using get_miss(1) by (rule guarded_swap) simp_all
next
  case (get_hit res T a t)
  from get_hit(3,1) show ?case
    by (rule guarded_swap) (use guardedD(7) [OF get_hit(3) get_hit(2)] in simp_all)
next
  case (remove res t T a)
  have "t < nextTref a"
    using remove(2,1) by (rule guarded_refers) simp
  with remove(2,1) have "guarded (a, add_mset (Resp_TryLock res t) (T - {#Resp_Remove res t#}))"
    by (intro guarded_swap) simp_all
  then show ?case by (rule guarded_uncache)
next
  case (response_locks res t T a locked)
  from response_locks(3,1) show ?case
    by (rule guarded_acquire) (use response_locks(2) in simp_all)
next
  case (response_loses res t T a locked)
  from response_loses(3,1) show ?case
    by (rule guarded_swap) simp_all
next
  case (response_runs res t T a err a')
  from response_runs(3,1) show ?case
    by (rule guarded_release [where t = t]) (use response_runs(2) in \<open>auto intro: closes_processResponse\<close>)
next
  case (expire a k t T)
  have "guarded (a, add_mset (Evict_TryLock t) T)"
    using expire(2) by (rule guarded_spawn) (use guardedD(7) [OF expire(2) expire(1)] in simp_all)
  then show ?case by (rule guarded_uncache)
next
  case (callback t a T)
  from callback(2) show ?case
    by (rule guarded_spawn) (use callback(1) in simp_all)
next
  case (eviction_locks t T a locked)
  from eviction_locks(3,1) show ?case
    by (rule guarded_acquire) (use eviction_locks(2) in simp_all)
next
  case (eviction_loses t T a locked)
  from eviction_loses(3) have "guarded (logMsg a Info ''eviction called on currently used transaction'', T)"
    by (rule guarded_extends) (rule extends_logMsg)
  then show ?case
    using eviction_loses(1) by (rule guarded_swap) simp_all
next
  case (eviction_runs t T a)
  from eviction_runs(2,1) show ?case
    by (rule guarded_release [where t = t]) (simp_all add: closes_evictionRun)
qed

lemma reachable_guarded: "reachable e c \<Longrightarrow> guarded c"
  by (induction rule: reachable.induct) (auto intro: guarded_initial guarded_step)



subsection \<open>The steps of a task, run without interruption, are the source function\<close>

lemma HandleResponse_steps:
  assumes rc: "ResponseCheck a"
      and p: "parseResponse message zeroResponse (Logger a) = (res, lg)"
      and i: "ResID res \<noteq> []"
      and h: "HandleResponse e a message = Some (err, a')"
  shows "(step e)\<^sup>*\<^sup>* (a, T) (a', add_mset Returned T)"
proof -
  define a1 where "a1 = a\<lparr>Logger := lg\<rparr>"
  have s1: "step e (a, T) (a1, add_mset (Resp_Get res) T)"
    unfolding a1_def using rc p i by (rule step.response)
  have g: "Resp_Get res \<in># add_mset (Resp_Get res) T" by simp
  show ?thesis
  proof (cases "cache a1 (ResID res)")
    case None
    with h rc p i have "a' = logMsg a1 Error ''transaction not found''"
      by (simp add: HandleResponse_def a1_def)
    with step.get_miss [OF g None, of e] have "step e (a1, add_mset (Resp_Get res) T) (a', add_mset Returned T)"
      by simp
    with s1 show ?thesis by auto
  next
    case (Some t)
    define a2 where "a2 = a1\<lparr>cache := (cache a1)(ResID res := None)\<rparr>"
    from step.get_hit [OF g Some, of e]
    have s2: "step e (a1, add_mset (Resp_Get res) T) (a1, add_mset (Resp_Remove res t) T)"
      by simp
    from step.remove [of res t "add_mset (Resp_Remove res t) T" e a1]
    have s3: "step e (a1, add_mset (Resp_Remove res t) T) (a2, add_mset (Resp_TryLock res t) T)"
      by (simp add: a2_def)
    from s1 s2 s3 have s: "(step e)\<^sup>*\<^sup>* (a, T) (a2, add_mset (Resp_TryLock res t) T)"
      by auto
    have k: "Resp_TryLock res t \<in># add_mset (Resp_TryLock res t) T" by simp
    obtain ok locked where l: "TryLock (m (txs a2 t)) = (ok, locked)"
      by (cases "TryLock (m (txs a2 t))") auto
    show ?thesis
    proof (cases ok)
      case False
      with h rc p i Some l have "a' = a2"
        by (simp add: HandleResponse_def a1_def a2_def Let_def)
      with step.response_loses [OF k, of a2 locked e] l False
      have "step e (a2, add_mset (Resp_TryLock res t) T) (a', add_mset Returned T)"
        by simp
      with s show ?thesis by auto
    next
      case True
      define a3 where "a3 = a2\<lparr>txs := (txs a2)(t := (txs a2 t)\<lparr>m := locked\<rparr>)\<rparr>"
      from h rc p i Some l True have r: "processResponse e a3 t res = Some (err, a')"
        by (simp add: HandleResponse_def a1_def a2_def a3_def Let_def)
      from step.response_locks [OF k, of a2 locked e] l True
      have s4: "step e (a2, add_mset (Resp_TryLock res t) T) (a3, add_mset (Resp_Owns res t) T)"
        by (simp add: a3_def)
      from step.response_runs [of res t "add_mset (Resp_Owns res t) T", OF _ r]
      have "step e (a3, add_mset (Resp_Owns res t) T) (a', add_mset Returned T)"
        by simp
      with s s4 show ?thesis by auto
    qed
  qed
qed

lemma evictionCallback_steps:
  "(step e)\<^sup>*\<^sup>* (a, add_mset (Evict_TryLock t) T) (evictionCallback e a t, add_mset Returned T)"
proof -
  have k: "Evict_TryLock t \<in># add_mset (Evict_TryLock t) T" by simp
  obtain ok locked where l: "TryLock (m (txs a t)) = (ok, locked)"
    by (cases "TryLock (m (txs a t))") auto
  show ?thesis
  proof (cases ok)
    case False
    with step.eviction_loses [OF k, of a locked e] l show ?thesis
      by (auto simp: evictionCallback_def)
  next
    case True
    define a1 where "a1 = a\<lparr>txs := (txs a)(t := (txs a t)\<lparr>m := locked\<rparr>)\<rparr>"
    from step.eviction_locks [OF k, of a locked e] l True
    have "step e (a, add_mset (Evict_TryLock t) T) (a1, add_mset (Evict_Owns t) T)"
      by (simp add: a1_def)
    moreover from step.eviction_runs [of t "add_mset (Evict_Owns t) T" e a1]
    have "step e (a1, add_mset (Evict_Owns t) T) (evictionRun e a1 t, add_mset Returned T)"
      by simp
    moreover from l True have "evictionCallback e a t = evictionRun e a1 t"
      by (simp add: evictionCallback_def a1_def)
    ultimately show ?thesis by auto
  qed
qed


subsection \<open>At most one finalization\<close>

definition example_start :: Application where
  "example_start = example_open_app\<lparr>cache := Map.empty, nextTref := 0, nextTx := 0\<rparr>"

definition example_start_gated :: Application where
  "example_start_gated =
     example_start\<lparr>calls := [CheckVisit ''203.0.113.7'', MatchRequest ''203.0.113.7'' ''/login'' ''/login'']\<rparr>"

definition example_first :: Application where
  "example_first =
     example_start
       \<lparr>cache := [''REQ1'' \<mapsto> 0],
        txs := (txs example_start)(0 := \<lparr>tx = 0, m = False, request = Some example_decoded\<rparr>),
        nextTref := 1, nextTx := 1,
        calls := [CheckVisit ''203.0.113.7'', MatchRequest ''203.0.113.7'' ''/login'' ''/login'',
                  NewTransactionWithID 0 ''REQ1'', SetString ''id'' ''REQ1'', IsRuleEngineOff 0,
                  ProcessConnection 0 ''203.0.113.7'' 40000 ''198.51.100.1'' 443,
                  ProcessURI 0 ''/login'' ''GET'' ''HTTP/1.1'',
                  AddRequestHeader 0 ''Host'' ''example.com'', ProcessRequestHeaders 0,
                  WriteRequestBody 0 [], ProcessRequestBody 0]\<rparr>"

definition example_expired :: Application where
  "example_expired = example_first\<lparr>cache := (cache example_first)(''REQ1'' := None)\<rparr>"

definition example_locked :: Application where
  "example_locked =
     example_expired\<lparr>txs := (txs example_expired)(0 := (txs example_expired 0)\<lparr>m := True\<rparr>)\<rparr>"

definition example_evicted :: Application where
  "example_evicted = evictionRun example_env example_locked 0"

lemmas example_start_defs =
  example_start_def example_open_app_def example_app_def

lemma example_start_decode:
  "decodeRequest example_env example_start example_message = (example_decoded, example_start)"
  by (simp add: decodeRequest_def example_message_def example_decoded_def zeroRequest_def
      example_start_defs)

lemma example_start_gates:
  "gates example_env example_start example_decoded ''203.0.113.7'' = Some (Inr example_start_gated)"
  by (simp add: gates_def banGate_def flowGate_def microGate_def example_client_ip example_fields
      example_start_defs example_env_def call_def logMsg_def Let_def example_start_gated_def)

lemma example_start_process:
  "openAndProcess example_env example_start_gated example_decoded ''203.0.113.7'' = Some (None, example_first)"
  by (simp add: openAndProcess_def requestPhases_def requestBody_def interruptedBy_def
      afterRequest_def example_fields example_read requestURL_def AddrString_def
      example_start_gated_def example_first_def example_start_defs example_env_def call_def
      logMsg_def Let_def)

lemma example_start_handle:
  "HandleRequest example_env example_start example_message = Some (None, example_first)"
  by (simp add: HandleRequest_def example_start_decode example_client_ip example_start_gates
      example_start_process)

lemma example_run: "reachable example_env (example_evicted, {#Returned#})"
proof -
  have "reachable example_env (example_start, {#})"
    by (rule at_start) (simp add: initial_def example_start_defs)
  moreover have "step example_env (example_start, {#}) (example_first, {#})"
    using example_start_handle by (rule step.request)
  ultimately have "reachable example_env (example_first, {#})"
    by (rule after_step)
  moreover have "step example_env (example_first, {#}) (example_expired, add_mset (Evict_TryLock 0) {#})"
    unfolding example_expired_def by (rule step.expire) (simp add: example_first_def)
  ultimately have "reachable example_env (example_expired, {#Evict_TryLock 0#})"
    by (rule after_step)
  moreover have "step example_env (example_expired, {#Evict_TryLock 0#})
      (example_locked, add_mset (Evict_Owns 0) ({#Evict_TryLock 0#} - {#Evict_TryLock 0#}))"
    unfolding example_locked_def
    by (rule step.eviction_locks) (simp_all add: TryLock_def example_expired_def example_first_def)
  ultimately have "reachable example_env
      (example_locked, add_mset (Evict_Owns 0) ({#Evict_TryLock 0#} - {#Evict_TryLock 0#}))"
    by (rule after_step)
  then have "reachable example_env (example_locked, {#Evict_Owns 0#})"
    by simp
  moreover have "step example_env (example_locked, {#Evict_Owns 0#})
      (example_evicted, add_mset Returned ({#Evict_Owns 0#} - {#Evict_Owns 0#}))"
    unfolding example_evicted_def by (rule step.eviction_runs) simp
  ultimately have "reachable example_env
      (example_evicted, add_mset Returned ({#Evict_Owns 0#} - {#Evict_Owns 0#}))"
    by (rule after_step)
  then show ?thesis by simp
qed

lemma example_evicted_fields:
  "nextTref example_evicted = 1" "tx (txs example_evicted 0) = 0" "m (txs example_evicted 0)"
  "closings example_evicted 0 = 1" "loggings example_evicted 0 = 1"
  by (simp_all add: example_evicted_def evictionRun_def example_locked_def example_expired_def
      example_first_def example_env_def call_def Let_def closings_def loggings_def)

text \<open>
  C1. In every state that the handlers, the eviction callback and the cache reach from the
  start by interleaving their steps in any order, a transaction that was placed in the cache
  has had the logging hook and \<open>Close\<close> the same number of times, at most once; and the
  number of its finalizations done and the number of tasks that hold its lock with the
  finalization still ahead add to at most one, and to zero as long as nobody has taken the
  lock with \<open>TryLock\<close>. So whichever of the response handler and the eviction callback (on
  expiry, or on any later sweep of the cache) takes the lock first is the only one to
  finalize.
\<close>

theorem finalized_at_most_once:
  assumes "reachable e (a, T)" and "t < nextTref a"
  shows "loggings a (tx (txs a t)) = closings a (tx (txs a t)) \<and>
         closings a (tx (txs a t)) \<le> 1 \<and>
         closings a (tx (txs a t)) + owners T t \<le> (if m (txs a t) then 1 else 0)"
proof -
  from assms(1) have g: "guarded (a, T)"
    by (rule reachable_guarded)
  from guardedD(3) [OF g assms(2)]
  have "closings a (tx (txs a t)) + owners T t \<le> (if m (txs a t) then 1 else 0)" .
  moreover from this have "closings a (tx (txs a t)) \<le> 1"
    by (simp split: if_splits)
  moreover have "loggings a (tx (txs a t)) = closings a (tx (txs a t))"
    using g by (rule guardedD(4))
  ultimately show ?thesis by simp
qed

theorem finalized_at_most_once_witness:
  "reachable example_env (example_evicted, {#Returned#}) \<and> 0 < nextTref example_evicted \<and>
   loggings example_evicted 0 = 1 \<and> closings example_evicted 0 = 1 \<and>
   owners {#Returned#} 0 = 0 \<and> m (txs example_evicted 0)"
  using finalized_at_most_once [OF example_run, of 0]
  by (simp add: example_run example_evicted_fields owners_def)


end
